theory Spec2Isabelle
  imports Main
begin


section \<open>Strings\<close>

text \<open>
  A JavaScript string is modelled as a \<open>string\<close>: a list of code units below 256.
  The character classes are those of the regular expressions of \<open>fixer.js\<close>, which
  carry the \<open>i\<close> flag and no \<open>u\<close> flag, so that \<open>[a-z]\<close> matches the ASCII letters of
  both cases and nothing else, and \<open>\d\<close> the ten ASCII digits. The dot of an expression
  matches every code unit but a line terminator; of the four line terminators only line
  feed and carriage return are below 256.
\<close>

definition is_letter :: "char \<Rightarrow> bool" where
  "is_letter c =
     (let n = (of_char c :: nat) in (65 \<le> n \<and> n \<le> 90) \<or> (97 \<le> n \<and> n \<le> 122))"

definition is_digit :: "char \<Rightarrow> bool" where
  "is_digit c = (let n = (of_char c :: nat) in 48 \<le> n \<and> n \<le> 57)"

definition is_rootch :: "char \<Rightarrow> bool" where
  "is_rootch c = (is_letter c \<or> is_digit c \<or> c = CHR ''-'')"

definition is_line_terminator :: "char \<Rightarrow> bool" where
  "is_line_terminator c = (c = CHR 0x0A \<or> c = CHR 0x0D)"

text \<open>
  \<open>toLowerCase\<close> is applied to matches of \<open>[a-z]+\<close>, \<open>[a-z0-9\-]+\<close> and
  \<open>(org|net|to)\<close> only (lines 23-26), where it changes the letters \<open>A\<close> to \<open>Z\<close> and
  nothing else.
\<close>

definition toLowerCase_char :: "char \<Rightarrow> char" where
  "toLowerCase_char c =
     (let n = (of_char c :: nat) in if 65 \<le> n \<and> n \<le> 90 then char_of (n + 32) else c)"

definition toLowerCase :: "string \<Rightarrow> string" where
  "toLowerCase s = map toLowerCase_char s"

text \<open>
  \<open>parseInt(ds, 10)\<close> on a string of digits, \<open>String(n)\<close> on a natural number, and
  \<open>s.padStart(target, pad)\<close> with a pad of one character.
\<close>

definition digit_value :: "char \<Rightarrow> nat" where
  "digit_value c = of_char c - 48"

definition digit_char :: "nat \<Rightarrow> char" where
  "digit_char n = char_of (48 + n)"

definition parseInt :: "string \<Rightarrow> nat" where
  "parseInt ds = foldl (\<lambda>acc c. acc * 10 + digit_value c) 0 ds"

fun String_num :: "nat \<Rightarrow> string" where
  "String_num n =
     (if n < 10 then [digit_char n] else String_num (n div 10) @ [digit_char (n mod 10)])"

declare String_num.simps [simp del]

definition padStart :: "nat \<Rightarrow> char \<Rightarrow> string \<Rightarrow> string" where
  "padStart target pad s = replicate (target - length s) pad @ s"

text \<open>
  \<open>s.split(sep)\<close> and \<open>ws.join(sep)\<close> for a separator of one character; the empty
  string splits into one empty piece.
\<close>

fun split_str :: "char \<Rightarrow> string \<Rightarrow> string list" where
  "split_str sep [] = [[]]"
| "split_str sep (c # cs) =
     (if c = sep then [] # split_str sep cs
      else (case split_str sep cs of
              w # ws \<Rightarrow> (c # w) # ws
            | [] \<Rightarrow> [[c]]))"

fun join_str :: "char \<Rightarrow> string list \<Rightarrow> string" where
  "join_str sep [] = []"
| "join_str sep [w] = w"
| "join_str sep (w # ws) = w @ sep # join_str sep ws"

section \<open>Addresses: \<open>parseSubdomain\<close> and the rendering of candidates\<close>

text \<open>
  The object returned by \<open>parseSubdomain\<close> (lines 22-28), and the value kept in
  \<open>serverCache\<close> (lines 172-177), which has no path.
\<close>

record parsed =
  prefix :: string
  number :: nat
  root :: string
  tld :: string
  path :: string

record cached =
  c_prefix :: string
  c_number :: nat
  c_root :: string
  c_tld :: string

text \<open>
  \<open>SUBDOMAIN_RE\<close> (line 12) is
  \<^verbatim>\<open>/^https?:\/\/([a-z]+)(\d{1,3})\.([a-z0-9\-]+)\.(org|net|to)(\/.*)$/i\<close>.
  The matcher below follows the expression from left to right. Each greedy group is
  followed by a character outside its own class, so backtracking never finds a second
  way to match and the longest run is the only one to try.
\<close>

definition match_scheme :: "string \<Rightarrow> string option" where
  "match_scheme s =
     (if toLowerCase (take 8 s) = ''https://'' then Some (drop 8 s)
      else if toLowerCase (take 7 s) = ''http://'' then Some (drop 7 s)
      else None)"

definition match_tld :: "string \<Rightarrow> (string \<times> string) option" where
  "match_tld s =
     (if toLowerCase (take 3 s) = ''org'' then Some (take 3 s, drop 3 s)
      else if toLowerCase (take 3 s) = ''net'' then Some (take 3 s, drop 3 s)
      else if toLowerCase (take 2 s) = ''to'' then Some (take 2 s, drop 2 s)
      else None)"

definition match_path :: "string \<Rightarrow> string option" where
  "match_path s =
     (case s of
        [] \<Rightarrow> None
      | c # rest \<Rightarrow>
          if c = CHR ''/'' \<and> list_all (\<lambda>d. \<not> is_line_terminator d) rest then Some s
          else None)"

definition match_dot :: "string \<Rightarrow> string option" where
  "match_dot s = (case s of [] \<Rightarrow> None | c # rest \<Rightarrow> if c = CHR ''.'' then Some rest else None)"

definition parseSubdomain :: "string \<Rightarrow> parsed option" where
  "parseSubdomain src =
     (case match_scheme src of
        None \<Rightarrow> None
      | Some s1 \<Rightarrow>
          let m1 = takeWhile is_letter s1; s2 = dropWhile is_letter s1;
              m2 = takeWhile is_digit s2; s3 = dropWhile is_digit s2
          in if m1 = [] \<or> length m2 < 1 \<or> 3 < length m2 then None
             else (case match_dot s3 of
                     None \<Rightarrow> None
                   | Some s4 \<Rightarrow>
                       let m3 = takeWhile is_rootch s4; s5 = dropWhile is_rootch s4
                       in if m3 = [] then None
                          else (case match_dot s5 of
                                  None \<Rightarrow> None
                                | Some s6 \<Rightarrow>
                                    (case match_tld s6 of
                                       None \<Rightarrow> None
                                     | Some (m4, s7) \<Rightarrow>
                                         (case match_path s7 of
                                            None \<Rightarrow> None
                                          | Some m5 \<Rightarrow>
                                              Some \<lparr>prefix = toLowerCase m1,
                                                    number = parseInt m2,
                                                    root = toLowerCase m3,
                                                    tld = toLowerCase m4,
                                                    path = m5\<rparr>)))))"

text \<open>
  The template literal of lines 86, 135 and 246:
  \<^verbatim>\<open>`https://${p}${String(n).padStart(2, '0')}.${r}.${t}${path}`\<close>.
\<close>

definition render_url :: "string \<Rightarrow> nat \<Rightarrow> string \<Rightarrow> string \<Rightarrow> string \<Rightarrow> string" where
  "render_url p n r t pth =
     ''https://'' @ p @ padStart 2 (CHR ''0'') (String_num n) @ ''.'' @ r @ ''.'' @ t @ pth"

definition render_parsed :: "parsed \<Rightarrow> string" where
  "render_parsed a = render_url (prefix a) (number a) (root a) (tld a) (path a)"

text \<open>
  The language of \<open>SUBDOMAIN_RE\<close> read off the expression, group by group: the input
  is a scheme, \<open>://\<close>, and the five captured groups in a row.
\<close>

definition matches_SUBDOMAIN_RE ::
  "string \<Rightarrow> string \<Rightarrow> string \<Rightarrow> string \<Rightarrow> string \<Rightarrow> string \<Rightarrow> bool" where
  "matches_SUBDOMAIN_RE src m1 m2 m3 m4 m5 =
     ((\<exists>sch. src = sch @ ''://'' @ m1 @ m2 @ ''.'' @ m3 @ ''.'' @ m4 @ m5 \<and>
             (toLowerCase sch = ''http'' \<or> toLowerCase sch = ''https'')) \<and>
      m1 \<noteq> [] \<and> list_all is_letter m1 \<and>
      1 \<le> length m2 \<and> length m2 \<le> 3 \<and> list_all is_digit m2 \<and>
      m3 \<noteq> [] \<and> list_all is_rootch m3 \<and>
      (toLowerCase m4 = ''org'' \<or> toLowerCase m4 = ''net'' \<or> toLowerCase m4 = ''to'') \<and>
      (\<exists>rest. m5 = CHR ''/'' # rest \<and> list_all (\<lambda>d. \<not> is_line_terminator d) rest))"

section \<open>Candidate generation\<close>

text \<open>The configuration of the current script (lines 4-10).\<close>

definition PROBE_TIMEOUT :: nat where "PROBE_TIMEOUT = 3000"
definition MAX_ATTEMPTS :: nat where "MAX_ATTEMPTS = 15"
definition MAX_SERVER_NUM :: nat where "MAX_SERVER_NUM = 15"
definition RETRY_DELAY :: nat where "RETRY_DELAY = 1000"

definition FALLBACK_ROOTS :: "string list" where
  "FALLBACK_ROOTS = [''mbdny.org'', ''mbrtz.org'', ''bato.to'', ''mbwbm.org'', ''mbznp.org'', ''mbqgu.org'']"

text \<open>
  \<^verbatim>\<open>x.split('/').slice(0, 3).join('/')\<close>: of a path it is the key of the resource
  group (line 80), of a URL it is scheme and host (lines 35 and 159).
\<close>

definition slice3 :: "string \<Rightarrow> string" where
  "slice3 x = join_str (CHR ''/'') (take 3 (split_str (CHR ''/'') x))"

definition serverCache_key :: "parsed \<Rightarrow> string" where
  "serverCache_key p = root p @ ''-'' @ slice3 (path p)"

record candidate =
  url :: string
  priority :: nat

text \<open>
  The closure \<open>add\<close> of lines 82-88, with the array \<open>candidates\<close> it pushes to passed
  through. A prefix other than \<open>k\<close> and \<open>n\<close> pushes nothing.
\<close>

definition add ::
  "parsed \<Rightarrow> candidate list \<Rightarrow> string \<Rightarrow> nat \<Rightarrow> string \<Rightarrow> string \<Rightarrow> nat \<Rightarrow> candidate list" where
  "add p candidates pf n r t pr =
     (if pf \<noteq> ''k'' \<and> pf \<noteq> ''n'' then candidates
      else candidates @ [\<lparr>url = render_url pf n r t (path p), priority = pr\<rparr>])"

text \<open>The array \<open>candidates\<close> as it stands at line 122, before it is sorted.\<close>

definition collectCandidates :: "(string \<rightharpoonup> cached) \<Rightarrow> parsed \<Rightarrow> candidate list" where
  "collectCandidates serverCache p =
     (let c0 = (case serverCache (serverCache_key p) of
                  None \<Rightarrow> []
                | Some c \<Rightarrow> add p [] (c_prefix c) (c_number c) (c_root c) (c_tld c) 0);
          c1 = (if prefix p = ''k'' then add p c0 ''n'' (number p) (root p) (tld p) 1
                else add p c0 ''k'' (number p) (root p) (tld p) 1);
          c2 = foldl (\<lambda>cs i. if i \<noteq> number p then add p cs ''n'' i (root p) (tld p) 2 else cs)
                 c1 [0..<Suc MAX_SERVER_NUM];
          c3 = foldl (\<lambda>cs fr. let parts = split_str (CHR ''.'') fr
                                in if length parts = 2 \<and> parts ! 0 \<noteq> root p
                                   then add p cs ''n'' (number p) (parts ! 0) (parts ! 1) 4
                                   else cs)
                 c2 FALLBACK_ROOTS
      in c3)"

text \<open>
  \<^verbatim>\<open>[...new Set(sorted)]\<close>: a \<open>Set\<close> keeps its elements in insertion order and ignores
  the insertion of an element it has, so each string stays at its first occurrence.
\<close>

fun Set_from :: "'a list \<Rightarrow> 'a list \<Rightarrow> 'a list" where
  "Set_from seen [] = []"
| "Set_from seen (x # xs) =
     (if x \<in> set seen then Set_from seen xs else x # Set_from (x # seen) xs)"

text \<open>
  Lines 123-127. \<open>Array.prototype.sort\<close> is stable, as \<open>sort_key\<close> is; the comparator
  orders by \<open>priority\<close> alone.
\<close>

definition generateCandidates :: "(string \<rightharpoonup> cached) \<Rightarrow> parsed \<Rightarrow> string list" where
  "generateCandidates serverCache p =
     (let sorted = map url (sort_key priority (collectCandidates serverCache p))
      in take MAX_ATTEMPTS (Set_from [] sorted))"

text \<open>
  The priority class of a URL: the best (smallest) priority under which the array
  \<open>candidates\<close> holds it.
\<close>

definition class_of :: "candidate list \<Rightarrow> string \<Rightarrow> nat" where
  "class_of cs u = Min (set (map priority (filter (\<lambda>c. url c = u) cs)))"

text \<open>The letters of a rendered URL between \<open>https://\<close> and the index.\<close>

definition host_prefix :: "string \<Rightarrow> string" where
  "host_prefix u = takeWhile is_letter (drop 8 u)"

text \<open>A URL of the \<open>k\<close> and \<open>n\<close> servers.\<close>

definition kn_url :: "string \<Rightarrow> bool" where
  "kn_url u \<longleftrightarrow> take 8 u = ''https://'' \<and> (host_prefix u = ''k'' \<or> host_prefix u = ''n'')"

subsection \<open>The oldest of the four scripts (lines 1121-1512)\<close>

definition MAX_ATTEMPTS_v4 :: nat where "MAX_ATTEMPTS_v4 = 30"

definition FALLBACK_PREFIXES_v4 :: "string list" where
  "FALLBACK_PREFIXES_v4 = [''n'', ''x'', ''t'', ''s'', ''w'', ''m'', ''c'', ''u'', ''k'']"

definition FALLBACK_ROOTS_v4 :: "string list" where
  "FALLBACK_ROOTS_v4 =
     [''mbdny.org'', ''mbrtz.org'', ''bato.to'', ''mbwbm.org'', ''mbznp.org'', ''mbqgu.org'',
      ''mpfip.org'', ''mpizz.org'', ''mpmok.org'', ''mpqom.org'', ''mpqsc.org'', ''mprnm.org'',
      ''mpubn.org'', ''mpujj.org'', ''mpvim.org'', ''mpypl.org'']"

text \<open>\<open>add\<close> of lines 1205-1208 has no filter on the prefix.\<close>

definition add_v4 ::
  "parsed \<Rightarrow> candidate list \<Rightarrow> string \<Rightarrow> nat \<Rightarrow> string \<Rightarrow> string \<Rightarrow> nat \<Rightarrow> candidate list" where
  "add_v4 p candidates pf n r t pr =
     candidates @ [\<lparr>url = render_url pf n r t (path p), priority = pr\<rparr>]"

definition collectCandidates_v4 :: "(string \<rightharpoonup> cached) \<Rightarrow> parsed \<Rightarrow> candidate list" where
  "collectCandidates_v4 serverCache p =
     (let c0 = (case serverCache (serverCache_key p) of
                  None \<Rightarrow> []
                | Some c \<Rightarrow> add_v4 p [] (c_prefix c) (c_number c) (c_root c) (c_tld c) 0);
          c1 = (if prefix p = ''k''
                then add_v4 p (add_v4 p (add_v4 p c0 ''n'' (number p) (root p) (tld p) 1)
                                 ''x'' (number p) (root p) (tld p) 1)
                       ''t'' (number p) (root p) (tld p) 1
                else c0);
          c2 = foldl (\<lambda>cs letter. if letter \<noteq> prefix p \<and> letter \<noteq> ''k'' \<and> letter \<noteq> ''n''
                                    then add_v4 p cs letter (number p) (root p) (tld p) 2 else cs)
                 c1 FALLBACK_PREFIXES_v4;
          c3 = foldl (\<lambda>cs i. if i \<noteq> number p then add_v4 p cs (prefix p) i (root p) (tld p) 3 else cs)
                 c2 [0..<Suc (min 5 MAX_SERVER_NUM)];
          c4 = foldl (\<lambda>cs fr. let parts = split_str (CHR ''.'') fr
                                in if length parts = 2 \<and> parts ! 0 \<noteq> root p
                                   then (let cs1 = add_v4 p cs (prefix p) (number p) (parts ! 0) (parts ! 1) 4
                                         in if prefix p = ''k''
                                            then add_v4 p cs1 ''n'' (number p) (parts ! 0) (parts ! 1) 4
                                            else cs1)
                                   else cs)
                 c3 FALLBACK_ROOTS_v4;
          c5 = foldl (\<lambda>cs i. if i \<noteq> number p then add_v4 p cs (prefix p) i (root p) (tld p) 5 else cs)
                 c4 [6..<Suc MAX_SERVER_NUM]
      in c5)"

definition generateCandidates_v4 :: "(string \<rightharpoonup> cached) \<Rightarrow> parsed \<Rightarrow> string list" where
  "generateCandidates_v4 serverCache p =
     (let sorted = map url (sort_key priority (collectCandidates_v4 serverCache p))
      in take MAX_ATTEMPTS_v4 (Set_from [] sorted))"


section \<open>The resolver\<close>

subsection \<open>\<open>rewriteSrcset\<close>\<close>

text \<open>
  The expression of line 136 is \<open>SUBDOMAIN_RE\<close> without its anchors and its path:
  \<^verbatim>\<open>/https?:\/\/[a-z]+\d{1,3}\.[a-z0-9\-]+\.(org|net|to)/gi\<close>.
  \<open>match_host s\<close> is what follows a match at the start of \<open>s\<close>.
\<close>

definition match_host :: "string \<Rightarrow> string option" where
  "match_host s =
     (case match_scheme s of
        None \<Rightarrow> None
      | Some s1 \<Rightarrow>
          let m1 = takeWhile is_letter s1; s2 = dropWhile is_letter s1;
              m2 = takeWhile is_digit s2; s3 = dropWhile is_digit s2
          in if m1 = [] \<or> length m2 < 1 \<or> 3 < length m2 then None
             else (case match_dot s3 of
                     None \<Rightarrow> None
                   | Some s4 \<Rightarrow>
                       let m3 = takeWhile is_rootch s4; s5 = dropWhile is_rootch s4
                       in if m3 = [] then None
                          else (case match_dot s5 of
                                  None \<Rightarrow> None
                                | Some s6 \<Rightarrow>
                                    (case match_tld s6 of
                                       None \<Rightarrow> None
                                     | Some (m4, s7) \<Rightarrow> Some s7))))"

text \<open>
  \<^verbatim>\<open>srcset.replace(re, newBase)\<close> with the \<open>g\<close> flag: every match, found from left to
  right and never overlapping, is replaced. \<open>newBase\<close> holds no \<open>$\<close>.
\<close>

function replace_hosts :: "string \<Rightarrow> string \<Rightarrow> string" where
  "replace_hosts newBase [] = []"
| "replace_hosts newBase (c # cs) =
     (case match_host (c # cs) of
        Some rest \<Rightarrow> newBase @ replace_hosts newBase rest
      | None \<Rightarrow> c # replace_hosts newBase cs)"
  by pat_completeness auto

lemma match_scheme_shorter: "match_scheme s = Some r \<Longrightarrow> length r < length s"
proof -
  assume a: "match_scheme s = Some r"
  have l: "length (toLowerCase (take n s)) = min (length s) n" for n
    by (simp add: toLowerCase_def)
  have 8: "8 \<le> length s" if "toLowerCase (take 8 s) = ''https://''"
    using l[of 8] unfolding that by simp
  have 7: "7 \<le> length s" if "toLowerCase (take 7 s) = ''http://''"
    using l[of 7] unfolding that by simp
  show ?thesis using a 7 8 by (auto simp: match_scheme_def split: if_splits)
qed

lemma match_host_shorter: "match_host s = Some r \<Longrightarrow> length r < length s"
proof -
  assume a: "match_host s = Some r"
  then obtain s1 where s1: "match_scheme s = Some s1"
    by (auto simp: match_host_def split: option.splits)
  have d: "length (dropWhile P xs) \<le> length xs" for P and xs :: string
    by (rule length_dropWhile_le)
  from a s1 obtain s4 s6 m4 where
    "match_dot (dropWhile is_digit (dropWhile is_letter s1)) = Some s4"
    "match_dot (dropWhile is_rootch s4) = Some s6" "match_tld s6 = Some (m4, r)"
    by (auto simp: match_host_def Let_def split: option.splits if_splits)
  then have "length s4 \<le> length (dropWhile is_digit (dropWhile is_letter s1))"
    "length s6 \<le> length (dropWhile is_rootch s4)" "length r \<le> length s6"
    by (auto simp: match_dot_def match_tld_def split: list.splits if_splits)
  then have "length r \<le> length s1"
    using d[of is_digit "dropWhile is_letter s1"] d[of is_letter s1] d[of is_rootch s4]
    by linarith
  then show ?thesis using match_scheme_shorter[OF s1] by simp
qed

termination replace_hosts
  by (relation "measure (\<lambda>(b, s). length s)") (auto dest: match_host_shorter)

definition rewriteSrcset :: "string \<Rightarrow> string \<Rightarrow> string option" where
  "rewriteSrcset srcset workingUrl =
     (if srcset = [] then None
      else (case parseSubdomain workingUrl of
              None \<Rightarrow> None
            | Some wp \<Rightarrow>
                Some (replace_hosts
                        (render_url (prefix wp) (number wp) (root wp) (tld wp) []) srcset)))"

subsection \<open>Image elements and the shared state\<close>

text \<open>
  The fields of an \<open>img\<close> element that the script reads or writes. An entry of
  \<open>dataset\<close> is \<open>None\<close> while it is undefined.
\<close>

record img =
  src :: string
  srcset :: string
  referrerPolicy :: string
  complete :: bool
  naturalWidth :: nat
  batoFixing :: "string option"
  batoFixed :: "string option"
  batoPreemptive :: "string option"
  originalSrc :: "string option"
  originalSrcset :: "string option"

text \<open>
  The three tables of lines 14-16 and the elements of the page, which are told apart by
  identity (a number here). \<open>requests\<close> lists the URLs a probe has asked the network
  for (line 73), \<open>timers\<close> the retries waiting for their delay (line 207).
\<close>

record state =
  serverCache :: "string \<rightharpoonup> cached"
  failedCache :: "string set"
  processingImages :: "nat set"
  images :: "nat \<Rightarrow> img"
  requests :: "string list"
  timers :: "(nat \<times> nat) list"

subsection \<open>\<open>probeUrl\<close>\<close>

text \<open>
  What the promise of \<open>probeUrl\<close> settles with: the four rejections are the strings
  \<open>'cached-fail'\<close>, \<open>'timeout'\<close>, \<open>'empty'\<close> and \<open>'error'\<close>. A \<open>net_event\<close> is the first
  of the three callbacks to run (a later one finds the promise settled, or \<open>timedOut\<close>
  set): \<open>onload\<close> with the width and height it sees, \<open>onerror\<close>, or the timer.
\<close>

datatype rejection = CachedFail | Timeout | Empty | Error

datatype probe_result = Resolved | Rejected rejection

datatype net_event = OnLoad nat nat | OnError | TimerFired

text \<open>The executor up to line 73: the cache is asked first, then the request goes out.\<close>

definition probeUrl_begin :: "state \<Rightarrow> string \<Rightarrow> rejection + state" where
  "probeUrl_begin st u =
     (let cacheKey = slice3 u
      in if cacheKey \<in> failedCache st then Inl CachedFail
         else Inr (st\<lparr>requests := requests st @ [u]\<rparr>))"

text \<open>The callback that runs first (lines 45-71).\<close>

definition probeUrl_end :: "state \<Rightarrow> string \<Rightarrow> net_event \<Rightarrow> probe_result \<times> state" where
  "probeUrl_end st u ev =
     (let cacheKey = slice3 u
      in case ev of
           TimerFired \<Rightarrow>
             (Rejected Timeout, st\<lparr>failedCache := insert cacheKey (failedCache st)\<rparr>)
         | OnLoad w h \<Rightarrow>
             if w > 1 \<or> h > 1 then (Resolved, st)
             else (Rejected Empty, st\<lparr>failedCache := insert cacheKey (failedCache st)\<rparr>)
         | OnError \<Rightarrow>
             (Rejected Error, st\<lparr>failedCache := insert cacheKey (failedCache st)\<rparr>))"

text \<open>What the probe that meets \<open>ev\<close> is rejected with; \<open>None\<close> when it resolves.\<close>

definition rejection_of :: "net_event \<Rightarrow> rejection option" where
  "rejection_of ev =
     (case ev of
        TimerFired \<Rightarrow> Some Timeout
      | OnLoad w h \<Rightarrow> if w > 1 \<or> h > 1 then None else Some Empty
      | OnError \<Rightarrow> Some Error)"

text \<open>One probe from the call to the settled promise; \<open>net\<close> answers for the network.\<close>

definition probeUrl :: "(string \<Rightarrow> net_event) \<Rightarrow> state \<Rightarrow> string \<Rightarrow> probe_result \<times> state" where
  "probeUrl net st u =
     (case probeUrl_begin st u of
        Inl e \<Rightarrow> (Rejected e, st)
      | Inr st1 \<Rightarrow> probeUrl_end st1 u (net u))"

subsection \<open>\<open>fixImage\<close>\<close>

text \<open>
  \<open>fixImage\<close> is an \<open>async\<close> function: it runs until it awaits a probe, and goes on when
  the probe settles. A \<open>task\<close> is a call waiting at line 165 for the probe of
  \<open>t_candidates ! t_i\<close>, with the locals it resumes with.
\<close>

record task =
  t_img :: nat
  t_isRetry :: bool
  t_parsed :: parsed
  t_candidates :: "string list"
  t_i :: nat
  t_lastError :: "rejection option"

text \<open>
  How a call ended: at the guard of lines 141-142, at the failed parse of line 148, with
  a working URL, or in the failure handling with the value of \<open>lastError\<close>.
\<close>

datatype pass_end = Skipped | NoParse | Fixed string | GaveUp "rejection option"

datatype status = Suspended task | Ended pass_end

definition set_batoFixing :: "state \<Rightarrow> nat \<Rightarrow> string \<Rightarrow> state" where
  "set_batoFixing st i v = st\<lparr>images := (images st)(i := (images st i)\<lparr>batoFixing := Some v\<rparr>)\<rparr>"

definition processingImages_delete :: "state \<Rightarrow> nat \<Rightarrow> state" where
  "processingImages_delete st i = st\<lparr>processingImages := processingImages st - {i}\<rparr>"

text \<open>Lines 202-215: the failure handling after the loop.\<close>

definition on_failure :: "state \<Rightarrow> task \<Rightarrow> state" where
  "on_failure st t =
     (if \<not> t_isRetry t \<and> t_lastError t = Some Timeout
      then (let st1 = processingImages_delete (set_batoFixing st (t_img t) ''retry'') (t_img t)
            in st1\<lparr>timers := timers st1 @ [(RETRY_DELAY, t_img t)]\<rparr>)
      else processingImages_delete (set_batoFixing st (t_img t) ''failed'') (t_img t))"

text \<open>Lines 167-192: the probe of \<open>u\<close> succeeded.\<close>

definition on_success :: "state \<Rightarrow> task \<Rightarrow> string \<Rightarrow> state" where
  "on_success st t u =
     (let st1 = (case parseSubdomain u of
                   None \<Rightarrow> st
                 | Some sp \<Rightarrow>
                     st\<lparr>serverCache := (serverCache st)(serverCache_key (t_parsed t) \<mapsto>
                           \<lparr>c_prefix = prefix sp, c_number = number sp,
                            c_root = root sp, c_tld = tld sp\<rparr>)\<rparr>);
          im1 = (images st1 (t_img t))\<lparr>referrerPolicy := ''no-referrer'', src := u\<rparr>;
          im2 = (if srcset im1 \<noteq> []
                 then (case rewriteSrcset (srcset im1) u of
                         None \<Rightarrow> im1
                       | Some newSrcset \<Rightarrow>
                           if newSrcset \<noteq> [] then im1\<lparr>srcset := newSrcset\<rparr> else im1)
                 else im1);
          im3 = im2\<lparr>batoFixing := Some ''done'', batoFixed := Some ''true''\<rparr>
      in processingImages_delete (st1\<lparr>images := (images st1)(t_img t := im3)\<rparr>) (t_img t))"

text \<open>
  The loop of lines 157-200 from its head, with \<open>i = t_i t\<close>, up to the next
  \<open>await\<close> or to the end of the call. A candidate of a failed host is passed over; a
  promise rejected at once goes through the \<open>catch\<close> block.
\<close>

function loop_from :: "state \<Rightarrow> task \<Rightarrow> state \<times> status" where
  "loop_from st t =
     (if t_i t < length (t_candidates t)
      then (let u = t_candidates t ! t_i t; serverPattern = slice3 u
            in if serverPattern \<in> failedCache st then loop_from st (t\<lparr>t_i := t_i t + 1\<rparr>)
               else (case probeUrl_begin st u of
                       Inr st1 \<Rightarrow> (st1, Suspended t)
                     | Inl e \<Rightarrow>
                         if e = Timeout \<and> t_i t > 6
                         then (on_failure st (t\<lparr>t_lastError := Some e\<rparr>), Ended (GaveUp (Some e)))
                         else loop_from st (t\<lparr>t_lastError := Some e, t_i := t_i t + 1\<rparr>)))
      else (on_failure st t, Ended (GaveUp (t_lastError t))))"
  by pat_completeness auto

termination loop_from
  by (relation "measure (\<lambda>(st, t). length (t_candidates t) - t_i t)") auto

declare loop_from.simps [simp del]

text \<open>The awaited probe of \<open>t\<close> settles: the rest of the \<open>try\<close> block, or the \<open>catch\<close> block.\<close>

definition settle :: "state \<Rightarrow> task \<Rightarrow> net_event \<Rightarrow> state \<times> status" where
  "settle st t ev =
     (let u = t_candidates t ! t_i t
      in case probeUrl_end st u ev of
           (Resolved, st1) \<Rightarrow> (on_success st1 t u, Ended (Fixed u))
         | (Rejected e, st1) \<Rightarrow>
             if e = Timeout \<and> t_i t > 6
             then (on_failure st1 (t\<lparr>t_lastError := Some e\<rparr>), Ended (GaveUp (Some e)))
             else loop_from st1 (t\<lparr>t_lastError := Some e, t_i := t_i t + 1\<rparr>))"

text \<open>Lines 139-155: the call up to the loop.\<close>

definition fixImage_start :: "state \<Rightarrow> nat \<Rightarrow> bool \<Rightarrow> state \<times> status" where
  "fixImage_start st i isRetry =
     (if i \<in> processingImages st then (st, Ended Skipped)
      else if batoFixing (images st i) = Some ''done'' \<or>
              (batoFixing (images st i) = Some ''true'' \<and> \<not> isRetry) then (st, Ended Skipped)
      else (let st1 = set_batoFixing (st\<lparr>processingImages := insert i (processingImages st)\<rparr>) i ''true''
            in case parseSubdomain (src (images st1 i)) of
                 None \<Rightarrow> (processingImages_delete st1 i, Ended NoParse)
               | Some p \<Rightarrow>
                   loop_from st1
                     \<lparr>t_img = i, t_isRetry = isRetry, t_parsed = p,
                      t_candidates = generateCandidates (serverCache st1) p,
                      t_i = 0, t_lastError = None\<rparr>))"

text \<open>
  A call run to its end with nothing else running in between: each awaited probe
  settles with the answer of \<open>net\<close>.
\<close>

function drive :: "(string \<Rightarrow> net_event) \<Rightarrow> state \<times> status \<Rightarrow> state \<times> pass_end" where
  "drive net (st, Ended r) = (st, r)"
| "drive net (st, Suspended t) = drive net (settle st t (net (t_candidates t ! t_i t)))"
  by pat_completeness auto

lemma loop_from_Suspended:
  "loop_from st t = (st', Suspended t') \<Longrightarrow>
     t_i t \<le> t_i t' \<and> t_i t' < length (t_candidates t') \<and>
     t' = t\<lparr>t_i := t_i t', t_lastError := t_lastError t'\<rparr>"
proof (induction st t rule: loop_from.induct)
  case (1 st t)
  show ?case
  proof (cases "t_i t < length (t_candidates t)")
    case False
    then show ?thesis using "1.prems" by (simp add: loop_from.simps[of st t])
  next
    case True
    define u where "u = t_candidates t ! t_i t"
    show ?thesis
    proof (cases "slice3 u \<in> failedCache st")
      case f: True
      then have "loop_from st t = loop_from st (t\<lparr>t_i := t_i t + 1\<rparr>)"
        using True by (simp add: loop_from.simps[of st t] u_def)
      then show ?thesis
        using "1.IH"(1)[OF True u_def refl f] "1.prems" by auto
    next
      case f: False
      then have "probeUrl_begin st u = Inr (st\<lparr>requests := requests st @ [u]\<rparr>)"
        by (simp add: probeUrl_begin_def)
      then have "loop_from st t = (st\<lparr>requests := requests st @ [u]\<rparr>, Suspended t)"
        using True f by (simp add: loop_from.simps[of st t] u_def)
      then show ?thesis using "1.prems" True by auto
    qed
  qed
qed

lemma settle_Suspended:
  "settle st t ev = (st', Suspended t') \<Longrightarrow>
     t_i t < t_i t' \<and> t_i t' < length (t_candidates t') \<and>
     t' = t\<lparr>t_i := t_i t', t_lastError := t_lastError t'\<rparr>"
  by (auto simp: settle_def Let_def split: prod.splits probe_result.splits if_splits
      dest!: loop_from_Suspended)

termination drive
proof (relation "measure (\<lambda>(net, st, s). case s of Ended _ \<Rightarrow> 0
                                         | Suspended t \<Rightarrow> Suc (length (t_candidates t) - t_i t))")
  show "wf (measure (\<lambda>(net, st, s). case s of Ended _ \<Rightarrow> 0
                                         | Suspended t \<Rightarrow> Suc (length (t_candidates t) - t_i t)))"
    by simp
next
  fix net :: "string \<Rightarrow> net_event" and st t
  obtain st' s' where r: "settle st t (net (t_candidates t ! t_i t)) = (st', s')"
    by (cases "settle st t (net (t_candidates t ! t_i t))")
  show "((net, settle st t (net (t_candidates t ! t_i t))), net, st, Suspended t)
       \<in> measure (\<lambda>(net, st, s). case s of Ended _ \<Rightarrow> 0
                                  | Suspended t \<Rightarrow> Suc (length (t_candidates t) - t_i t))"
  proof (cases s')
    case (Ended e)
    then show ?thesis using r by simp
  next
    case (Suspended t')
    from settle_Suspended[OF r[unfolded Suspended]]
    have "t_i t < t_i t'" "t_i t' < length (t_candidates t')" "t_candidates t' = t_candidates t"
      by (auto, metis task.select_convs(4) task.surjective task.update_convs(5,6))
    then show ?thesis using r Suspended by simp
  qed
qed

definition fixImage :: "(string \<Rightarrow> net_event) \<Rightarrow> state \<Rightarrow> nat \<Rightarrow> bool \<Rightarrow> state \<times> pass_end" where
  "fixImage net st i isRetry = drive net (fixImage_start st i isRetry)"

text \<open>
  The callback of lines 207-211, when its delay is over: the retry runs only if the
  image is still broken.
\<close>

definition retry_callback ::
  "(string \<Rightarrow> net_event) \<Rightarrow> state \<Rightarrow> nat \<Rightarrow> state \<times> pass_end option" where
  "retry_callback net st i =
     (if complete (images st i) \<and> naturalWidth (images st i) = 0
      then (case fixImage net st i True of (st', r) \<Rightarrow> (st', Some r))
      else (st, None))"

subsection \<open>\<open>preemptiveFix\<close>\<close>

text \<open>Lines 219-261, on one element; the success cache is only read.\<close>

definition preemptiveFix :: "(string \<rightharpoonup> cached) \<Rightarrow> img \<Rightarrow> bool \<times> img" where
  "preemptiveFix cache im =
     (case parseSubdomain (src im) of
        None \<Rightarrow> (False, im)
      | Some p \<Rightarrow>
          if prefix p \<noteq> ''k'' then (False, im)
          else (let c = (case cache (serverCache_key p) of
                           None \<Rightarrow> \<lparr>c_prefix = ''n'', c_number = number p,
                                     c_root = root p, c_tld = tld p\<rparr>
                         | Some cached \<Rightarrow> cached);
                    newPrefix = (if c_prefix c \<noteq> ''k'' \<and> c_prefix c \<noteq> ''n'' then ''n''
                                 else c_prefix c);
                    newUrl = render_url newPrefix (c_number c) (c_root c) (c_tld c) (path p);
                    im1 = im\<lparr>originalSrc := Some (src im), referrerPolicy := ''no-referrer'',
                             src := newUrl\<rparr>;
                    im2 = (if srcset im1 \<noteq> []
                           then (let im' = im1\<lparr>originalSrcset := Some (srcset im1)\<rparr>
                                 in case rewriteSrcset (srcset im') newUrl of
                                      None \<Rightarrow> im'
                                    | Some newSrcset \<Rightarrow>
                                        if newSrcset \<noteq> [] then im'\<lparr>srcset := newSrcset\<rparr>
                                        else im')
                           else im1)
                in (True, im2\<lparr>batoPreemptive := Some ''true''\<rparr>)))"

subsection \<open>Many calls at once\<close>

text \<open>
  The page runs one piece of script at a time. Between two pieces anything else may
  run: another call of \<open>fixImage\<close> begins, the awaited probe of some task settles, a
  retry timer comes due, or the page (the browser, and the rest of the script, which
  touches elements only) rewrites the fields of an element.
\<close>

record world =
  w_state :: state
  w_tasks :: "task list"

datatype event = Call nat bool | Settled nat net_event | TimerDue nat | Page nat img

definition enter :: "world \<Rightarrow> state \<times> status \<Rightarrow> world" where
  "enter w r =
     (case r of
        (st', Suspended t) \<Rightarrow> \<lparr>w_state = st', w_tasks = w_tasks w @ [t]\<rparr>
      | (st', Ended e) \<Rightarrow> \<lparr>w_state = st', w_tasks = w_tasks w\<rparr>)"

definition apply_event :: "world \<Rightarrow> event \<Rightarrow> world" where
  "apply_event w e =
     (case e of
        Call i isRetry \<Rightarrow> enter w (fixImage_start (w_state w) i isRetry)
      | Settled k ev \<Rightarrow>
          if k < length (w_tasks w)
          then (case settle (w_state w) (w_tasks w ! k) ev of
                  (st', Suspended t') \<Rightarrow> \<lparr>w_state = st', w_tasks = (w_tasks w)[k := t']\<rparr>
                | (st', Ended r) \<Rightarrow>
                    \<lparr>w_state = st', w_tasks = take k (w_tasks w) @ drop (Suc k) (w_tasks w)\<rparr>)
          else w
      | TimerDue k \<Rightarrow>
          if k < length (timers (w_state w))
          then (let i = snd (timers (w_state w) ! k);
                    st1 = (w_state w)\<lparr>timers := take k (timers (w_state w)) @
                                                  drop (Suc k) (timers (w_state w))\<rparr>
                in if complete (images st1 i) \<and> naturalWidth (images st1 i) = 0
                   then enter (w\<lparr>w_state := st1\<rparr>) (fixImage_start st1 i True)
                   else w\<lparr>w_state := st1\<rparr>)
          else w
      | Page i im \<Rightarrow> w\<lparr>w_state := (w_state w)\<lparr>images := (images (w_state w))(i := im)\<rparr>\<rparr>)"

definition run_events :: "world \<Rightarrow> event list \<Rightarrow> world" where
  "run_events w evs = foldl apply_event w evs"

text \<open>The page as the script finds it: empty tables, no call under way.\<close>

definition initial :: "(nat \<Rightarrow> img) \<Rightarrow> world" where
  "initial imgs =
     \<lparr>w_state = \<lparr>serverCache = Map.empty, failedCache = {}, processingImages = {},
                  images = imgs, requests = [], timers = []\<rparr>,
      w_tasks = []\<rparr>"

definition broken_img :: "string \<Rightarrow> img" where
  "broken_img u =
     \<lparr>src = u, srcset = [], referrerPolicy = [], complete = True, naturalWidth = 0,
      batoFixing = None, batoFixed = None, batoPreemptive = None,
      originalSrc = None, originalSrcset = None\<rparr>"

text \<open>
  What the in-flight set is for: no two tasks work on the same element, and
  \<open>processingImages\<close> holds exactly the elements that have a task.
\<close>

definition sane :: "world \<Rightarrow> bool" where
  "sane w \<longleftrightarrow> distinct (map t_img (w_tasks w)) \<and>
              set (map t_img (w_tasks w)) = processingImages (w_state w)"


section \<open>Properties of the parser\<close>

lemma toLowerCase_char_fix: "\<not> is_letter (toLowerCase_char c) \<Longrightarrow> toLowerCase_char c = c"
  by (auto simp: is_letter_def toLowerCase_char_def Let_def split: if_splits)

lemma is_letter_toLowerCase_char [simp]: "is_letter (toLowerCase_char c) = is_letter c"
  by (auto simp: is_letter_def toLowerCase_char_def Let_def)

lemma toLowerCase_nonletters:
  "toLowerCase xs = ys \<Longrightarrow> list_all (\<lambda>d. \<not> is_letter d) ys \<Longrightarrow> xs = ys"
  by (induction xs arbitrary: ys) (auto simp: toLowerCase_def toLowerCase_char_fix)

lemma toLowerCase_length [simp]: "length (toLowerCase s) = length s"
  by (simp add: toLowerCase_def)

lemma toLowerCase_append [simp]: "toLowerCase (xs @ ys) = toLowerCase xs @ toLowerCase ys"
  by (simp add: toLowerCase_def)

lemma toLowerCase_take: "toLowerCase (take n s) = take n (toLowerCase s)"
  by (simp add: toLowerCase_def take_map)

lemma toLowerCase_drop: "toLowerCase (drop n s) = drop n (toLowerCase s)"
  by (simp add: toLowerCase_def drop_map)

lemma not_letter_punct [simp]:
  "\<not> is_letter CHR '':''" "\<not> is_letter CHR ''/''" "\<not> is_letter CHR ''.''"
  by (simp_all add: is_letter_def)

lemma toLowerCase_simps [simp]:
  "toLowerCase [] = []" "toLowerCase (c # cs) = toLowerCase_char c # toLowerCase cs"
  by (simp_all add: toLowerCase_def)

lemma toLowerCase_char_id [simp]: "\<not> is_letter c \<Longrightarrow> toLowerCase_char c = c"
  by (auto simp: is_letter_def toLowerCase_char_def Let_def)

text \<open>The scheme: \<open>http\<close> or \<open>https\<close> in any case, then \<open>://\<close>.\<close>

lemma match_scheme_Some_iff:
  "match_scheme s = Some s1 \<longleftrightarrow>
     (\<exists>sch. s = sch @ ''://'' @ s1 \<and> (toLowerCase sch = ''http'' \<or> toLowerCase sch = ''https''))"
proof
  assume m: "match_scheme s = Some s1"
  show "\<exists>sch. s = sch @ ''://'' @ s1 \<and> (toLowerCase sch = ''http'' \<or> toLowerCase sch = ''https'')"
  proof (cases "toLowerCase (take 8 s) = ''https://''")
    case True
    then have s1: "s1 = drop 8 s" using m by (simp add: match_scheme_def)
    have t8: "take 8 s = take 5 s @ drop 5 (take 8 s)"
      using append_take_drop_id[of 5 "take 8 s"] by simp
    have a: "toLowerCase (take 5 s) = ''https''"
    proof -
      have "toLowerCase (take 5 (take 8 s)) = take 5 (toLowerCase (take 8 s))"
        by (rule toLowerCase_take)
      then show ?thesis using True by simp
    qed
    have "toLowerCase (drop 5 (take 8 s)) = ''://''"
      using True by (simp add: toLowerCase_drop)
    then have b: "drop 5 (take 8 s) = ''://''"
      by (rule toLowerCase_nonletters) simp
    have e1: "s = take 8 s @ s1" using s1 by simp
    have e2: "take 8 s = take 5 s @ ''://''" unfolding b[symmetric] by (rule t8)
    have "s = take 5 s @ ''://'' @ s1" using e1 e2 by (metis append_assoc)
    then show ?thesis using a by blast
  next
    case False
    then have t7: "toLowerCase (take 7 s) = ''http://''" and s1: "s1 = drop 7 s"
      using m by (auto simp: match_scheme_def split: if_splits)
    have t8: "take 7 s = take 4 s @ drop 4 (take 7 s)"
      using append_take_drop_id[of 4 "take 7 s"] by simp
    have a: "toLowerCase (take 4 s) = ''http''"
    proof -
      have "toLowerCase (take 4 (take 7 s)) = take 4 (toLowerCase (take 7 s))"
        by (rule toLowerCase_take)
      then show ?thesis using t7 by simp
    qed
    have "toLowerCase (drop 4 (take 7 s)) = ''://''"
      using t7 by (simp add: toLowerCase_drop)
    then have b: "drop 4 (take 7 s) = ''://''"
      by (rule toLowerCase_nonletters) simp
    have e1: "s = take 7 s @ s1" using s1 by simp
    have e2: "take 7 s = take 4 s @ ''://''" unfolding b[symmetric] by (rule t8)
    have "s = take 4 s @ ''://'' @ s1" using e1 e2 by (metis append_assoc)
    then show ?thesis using a by blast
  qed
next
  assume "\<exists>sch. s = sch @ ''://'' @ s1 \<and> (toLowerCase sch = ''http'' \<or> toLowerCase sch = ''https'')"
  then obtain sch where s: "s = sch @ ''://'' @ s1"
    and sch: "toLowerCase sch = ''http'' \<or> toLowerCase sch = ''https''" by blast
  from sch show "match_scheme s = Some s1"
  proof
    assume h: "toLowerCase sch = ''https''"
    then have "length (toLowerCase sch) = 5" by simp
    then have "length sch = 5" by simp
    then show ?thesis using s h by (simp add: match_scheme_def)
  next
    assume h: "toLowerCase sch = ''http''"
    then have "length (toLowerCase sch) = 4" by simp
    then have l: "length sch = 4" by simp
    then have "toLowerCase (take 8 s) = ''http://'' @ toLowerCase (take 1 s1)"
      using s h by simp
    then have "toLowerCase (take 8 s) \<noteq> ''https://''" by simp
    then show ?thesis using s h l by (simp add: match_scheme_def)
  qed
qed


lemma match_tld_Some_iff:
  "match_tld s = Some (m4, s7) \<longleftrightarrow>
     s = m4 @ s7 \<and> (toLowerCase m4 = ''org'' \<or> toLowerCase m4 = ''net'' \<or> toLowerCase m4 = ''to'')"
proof
  assume "match_tld s = Some (m4, s7)"
  then show "s = m4 @ s7 \<and> (toLowerCase m4 = ''org'' \<or> toLowerCase m4 = ''net'' \<or> toLowerCase m4 = ''to'')"
    by (auto simp: match_tld_def split: if_splits)
next
  assume a: "s = m4 @ s7 \<and> (toLowerCase m4 = ''org'' \<or> toLowerCase m4 = ''net'' \<or> toLowerCase m4 = ''to'')"
  then have s: "s = m4 @ s7" by simp
  from a consider "toLowerCase m4 = ''org''" | "toLowerCase m4 = ''net''" | "toLowerCase m4 = ''to''"
    by blast
  then show "match_tld s = Some (m4, s7)"
  proof cases
    case 1
    then have "length (toLowerCase m4) = 3" by simp
    then have "length m4 = 3" by simp
    then show ?thesis using s 1 by (simp add: match_tld_def)
  next
    case 2
    then have "length (toLowerCase m4) = 3" by simp
    then have "length m4 = 3" by simp
    then show ?thesis using s 2 by (simp add: match_tld_def)
  next
    case 3
    then have "length (toLowerCase m4) = 2" by simp
    then have l: "length m4 = 2" by simp
    then have "toLowerCase (take 3 s) = ''to'' @ toLowerCase (take 1 s7)"
      using s 3 by simp
    then have "toLowerCase (take 3 s) \<noteq> ''org'' \<and> toLowerCase (take 3 s) \<noteq> ''net''" by simp
    then show ?thesis using s 3 l by (simp add: match_tld_def)
  qed
qed

lemma match_dot_Some_iff: "match_dot s = Some r \<longleftrightarrow> s = CHR ''.'' # r"
  by (auto simp: match_dot_def split: list.splits)

lemma match_path_Some_iff:
  "match_path s = Some m5 \<longleftrightarrow>
     m5 = s \<and> (\<exists>rest. s = CHR ''/'' # rest \<and> list_all (\<lambda>d. \<not> is_line_terminator d) rest)"
  by (auto simp: match_path_def split: list.splits)

lemma not_class_punct [simp]:
  "\<not> is_digit CHR ''.''" "\<not> is_rootch CHR ''.''"
  by (simp_all add: is_digit_def is_rootch_def is_letter_def)

lemma digit_not_letter: "is_digit c \<Longrightarrow> \<not> is_letter c"
  by (auto simp: is_digit_def is_letter_def Let_def)

text \<open>A greedy group takes the whole run when the next character is outside its class.\<close>

lemma takeWhile_run:
  "list_all P xs \<Longrightarrow> (ys = [] \<or> \<not> P (hd ys)) \<Longrightarrow> takeWhile P (xs @ ys) = xs"
  by (induction xs) (cases ys; auto)+

lemma dropWhile_run:
  "list_all P xs \<Longrightarrow> (ys = [] \<or> \<not> P (hd ys)) \<Longrightarrow> dropWhile P (xs @ ys) = ys"
  by (induction xs) (cases ys; auto)+

lemma list_all_takeWhile: "list_all P (takeWhile P xs)"
  by (induction xs) auto

text \<open>The matcher accepts the language of the expression, and its fields are the groups.\<close>

lemma parseSubdomain_Some_iff:
  "parseSubdomain adr = Some a \<longleftrightarrow>
     (\<exists>m1 m2 m3 m4 m5. matches_SUBDOMAIN_RE adr m1 m2 m3 m4 m5 \<and>
        a = \<lparr>prefix = toLowerCase m1, number = parseInt m2, root = toLowerCase m3,
              tld = toLowerCase m4, path = m5\<rparr>)"
proof
  assume p: "parseSubdomain adr = Some a"
  then obtain s1 where s1: "match_scheme adr = Some s1"
    by (auto simp: parseSubdomain_def split: option.splits)
  define m1 where "m1 = takeWhile is_letter s1"
  define s2 where "s2 = dropWhile is_letter s1"
  define m2 where "m2 = takeWhile is_digit s2"
  define s3 where "s3 = dropWhile is_digit s2"
  from p s1 have g1: "m1 \<noteq> []" "1 \<le> length m2" "length m2 \<le> 3"
    by (auto simp: parseSubdomain_def Let_def m1_def m2_def s2_def Suc_le_eq split: if_splits)
  from p s1 g1 obtain s4 where s4: "match_dot s3 = Some s4"
    by (auto simp: parseSubdomain_def Let_def m1_def m2_def s2_def s3_def
        split: if_splits option.splits)
  define m3 where "m3 = takeWhile is_rootch s4"
  define s5 where "s5 = dropWhile is_rootch s4"
  from p s1 g1 s4 have g3: "m3 \<noteq> []"
    by (auto simp: parseSubdomain_def Let_def m1_def m2_def s2_def s3_def m3_def
        split: if_splits option.splits)
  from p s1 g1 s4 g3 obtain s6 where s6: "match_dot s5 = Some s6"
    by (auto simp: parseSubdomain_def Let_def m1_def m2_def s2_def s3_def m3_def s5_def
        split: if_splits option.splits)
  from p s1 g1 s4 g3 s6 obtain m4 s7 where m4: "match_tld s6 = Some (m4, s7)"
    by (auto simp: parseSubdomain_def Let_def m1_def m2_def s2_def s3_def m3_def s5_def
        split: if_splits option.splits)
  from p s1 g1 s4 g3 s6 m4 obtain m5 where m5: "match_path s7 = Some m5"
    and a: "a = \<lparr>prefix = toLowerCase m1, number = parseInt m2, root = toLowerCase m3,
              tld = toLowerCase m4, path = m5\<rparr>"
    by (auto simp: parseSubdomain_def Let_def m1_def m2_def s2_def s3_def m3_def s5_def
        split: if_splits option.splits)
  from s1 obtain sch where sch: "adr = sch @ ''://'' @ s1"
    "toLowerCase sch = ''http'' \<or> toLowerCase sch = ''https''"
    unfolding match_scheme_Some_iff by blast
  have e1: "s1 = m1 @ s2" by (simp add: m1_def s2_def)
  have e2: "s2 = m2 @ s3" by (simp add: m2_def s3_def)
  have e3: "s3 = CHR ''.'' # s4" using s4 by (simp add: match_dot_Some_iff)
  have e4: "s4 = m3 @ s5" by (simp add: m3_def s5_def)
  have e5: "s5 = CHR ''.'' # s6" using s6 by (simp add: match_dot_Some_iff)
  have e6: "s6 = m4 @ s7" and t: "toLowerCase m4 = ''org'' \<or> toLowerCase m4 = ''net'' \<or> toLowerCase m4 = ''to''"
    using m4 by (simp_all add: match_tld_Some_iff)
  have e7: "m5 = s7" and pth: "\<exists>rest. s7 = CHR ''/'' # rest \<and> list_all (\<lambda>d. \<not> is_line_terminator d) rest"
    using m5 by (simp_all add: match_path_Some_iff)
  have "adr = sch @ ''://'' @ m1 @ m2 @ ''.'' @ m3 @ ''.'' @ m4 @ m5"
    using sch(1) e1 e2 e3 e4 e5 e6 e7 by simp
  then have "matches_SUBDOMAIN_RE adr m1 m2 m3 m4 m5"
    unfolding matches_SUBDOMAIN_RE_def
    using sch(2) g1 g3 t pth e7
    by (auto simp: m1_def m2_def m3_def list_all_takeWhile)
  then show "\<exists>m1 m2 m3 m4 m5. matches_SUBDOMAIN_RE adr m1 m2 m3 m4 m5 \<and>
        a = \<lparr>prefix = toLowerCase m1, number = parseInt m2, root = toLowerCase m3,
              tld = toLowerCase m4, path = m5\<rparr>"
    using a by blast
next
  assume "\<exists>m1 m2 m3 m4 m5. matches_SUBDOMAIN_RE adr m1 m2 m3 m4 m5 \<and>
        a = \<lparr>prefix = toLowerCase m1, number = parseInt m2, root = toLowerCase m3,
              tld = toLowerCase m4, path = m5\<rparr>"
  then obtain m1 m2 m3 m4 m5 where m: "matches_SUBDOMAIN_RE adr m1 m2 m3 m4 m5"
    and a: "a = \<lparr>prefix = toLowerCase m1, number = parseInt m2, root = toLowerCase m3,
              tld = toLowerCase m4, path = m5\<rparr>" by blast
  from m obtain sch rest where adr: "adr = sch @ ''://'' @ m1 @ m2 @ ''.'' @ m3 @ ''.'' @ m4 @ m5"
    and sch: "toLowerCase sch = ''http'' \<or> toLowerCase sch = ''https''"
    and c1: "m1 \<noteq> []" "list_all is_letter m1"
    and c2: "1 \<le> length m2" "length m2 \<le> 3" "list_all is_digit m2"
    and c3: "m3 \<noteq> []" "list_all is_rootch m3"
    and c4: "toLowerCase m4 = ''org'' \<or> toLowerCase m4 = ''net'' \<or> toLowerCase m4 = ''to''"
    and c5: "m5 = CHR ''/'' # rest" "list_all (\<lambda>d. \<not> is_line_terminator d) rest"
    unfolding matches_SUBDOMAIN_RE_def by blast
  have ms: "match_scheme adr = Some (m1 @ m2 @ ''.'' @ m3 @ ''.'' @ m4 @ m5)"
    unfolding match_scheme_Some_iff using adr sch by blast
  have m2ne: "m2 \<noteq> []" using c2(1) by auto
  then have hd2: "\<not> is_letter (hd (m2 @ ''.'' @ m3 @ ''.'' @ m4 @ m5))"
    using c2(3) by (cases m2) (auto simp: digit_not_letter)
  have t1: "takeWhile is_letter (m1 @ m2 @ ''.'' @ m3 @ ''.'' @ m4 @ m5) = m1"
    using c1(2) hd2 by (rule takeWhile_run[OF _ disjI2])
  have d1: "dropWhile is_letter (m1 @ m2 @ ''.'' @ m3 @ ''.'' @ m4 @ m5) = m2 @ ''.'' @ m3 @ ''.'' @ m4 @ m5"
    using c1(2) hd2 by (rule dropWhile_run[OF _ disjI2])
  have t2: "takeWhile is_digit (m2 @ ''.'' @ m3 @ ''.'' @ m4 @ m5) = m2"
    using c2(3) by (rule takeWhile_run) simp
  have d2: "dropWhile is_digit (m2 @ ''.'' @ m3 @ ''.'' @ m4 @ m5) = ''.'' @ m3 @ ''.'' @ m4 @ m5"
    using c2(3) by (rule dropWhile_run) simp
  have md1: "match_dot (''.'' @ m3 @ ''.'' @ m4 @ m5) = Some (m3 @ ''.'' @ m4 @ m5)"
    by (simp add: match_dot_Some_iff)
  have t3: "takeWhile is_rootch (m3 @ ''.'' @ m4 @ m5) = m3"
    using c3(2) by (rule takeWhile_run) simp
  have d3: "dropWhile is_rootch (m3 @ ''.'' @ m4 @ m5) = ''.'' @ m4 @ m5"
    using c3(2) by (rule dropWhile_run) simp
  have md2: "match_dot (''.'' @ m4 @ m5) = Some (m4 @ m5)"
    by (simp add: match_dot_Some_iff)
  have mt: "match_tld (m4 @ m5) = Some (m4, m5)"
    using c4 by (simp add: match_tld_Some_iff)
  have mp: "match_path m5 = Some m5"
    using c5 by (simp add: match_path_Some_iff)
  have l2: "\<not> length m2 < 1" "\<not> 3 < length m2" using c2 by auto
  show "parseSubdomain adr = Some a"
    unfolding parseSubdomain_def
    by (simp only: ms option.case Let_def t1 d1 t2 d2 md1 t3 d3 md2 mt mp c1(1) c3(1) l2
        simp_thms if_False prod.case a)
qed

lemma toLowerCase_char_idem [simp]: "toLowerCase_char (toLowerCase_char c) = toLowerCase_char c"
  by (auto simp: toLowerCase_char_def Let_def)

lemma toLowerCase_idem [simp]: "toLowerCase (toLowerCase s) = toLowerCase s"
  by (induction s) auto

lemma is_digit_toLowerCase_char [simp]: "is_digit (toLowerCase_char c) = is_digit c"
  by (auto simp: is_digit_def toLowerCase_char_def Let_def)

lemma is_rootch_toLowerCase_char [simp]: "is_rootch (toLowerCase_char c) = is_rootch c"
  by (auto simp: is_rootch_def is_letter_def is_digit_def toLowerCase_char_def Let_def)

lemma list_all_toLowerCase [simp]:
  "list_all is_letter (toLowerCase s) = list_all is_letter s"
  "list_all is_rootch (toLowerCase s) = list_all is_rootch s"
  by (induction s) auto

text \<open>Decimal numerals: \<open>parseInt\<close> inverts \<open>String\<close>, also behind leading zeros.\<close>

lemma parseInt_snoc: "parseInt (ds @ [c]) = parseInt ds * 10 + digit_value c"
  by (simp add: parseInt_def)

lemma digit_char_props:
  "n < 10 \<Longrightarrow> is_digit (digit_char n)" "n < 10 \<Longrightarrow> digit_value (digit_char n) = n"
  by (simp_all add: is_digit_def digit_char_def digit_value_def)

lemma String_num_digits: "list_all is_digit (String_num n)"
  by (induction n rule: String_num.induct) (subst String_num.simps, simp add: digit_char_props)

lemma parseInt_String_num: "parseInt (String_num n) = n"
proof (induction n rule: String_num.induct)
  case (1 n)
  show ?case
  proof (cases "n < 10")
    case True
    then show ?thesis by (subst String_num.simps) (simp add: parseInt_def digit_char_props)
  next
    case False
    then show ?thesis using 1
      by (subst String_num.simps) (simp add: parseInt_snoc digit_char_props)
  qed
qed

lemma String_num_length:
  "n < 1000 \<Longrightarrow> 1 \<le> length (String_num n) \<and> length (String_num n) \<le> 3"
  by (simp add: String_num.simps[of n] String_num.simps[of "n div 10"] String_num.simps[of "n div 10 div 10"])

lemma parseInt_zeros: "parseInt (replicate k (CHR ''0'') @ s) = parseInt s"
proof -
  have "foldl (\<lambda>acc c. acc * 10 + digit_value c) 0 (replicate k (CHR ''0'')) = 0"
  proof (induction k)
    case 0
    then show ?case by simp
  next
    case (Suc k)
    have "replicate (Suc k) (CHR ''0'') = replicate k (CHR ''0'') @ [CHR ''0'']"
      by (simp add: replicate_append_same)
    then show ?case using Suc by (simp add: digit_value_def del: replicate_Suc)
  qed
  then show ?thesis by (simp add: parseInt_def)
qed

lemma parseInt_bound: "list_all is_digit ds \<Longrightarrow> parseInt ds < 10 ^ length ds"
proof (induction ds rule: rev_induct)
  case Nil
  then show ?case by (simp add: parseInt_def)
next
  case (snoc c ds)
  then have "digit_value c < 10" by (auto simp: is_digit_def digit_value_def Let_def)
  moreover have "parseInt ds < 10 ^ length ds" using snoc by simp
  ultimately show ?case by (simp add: parseInt_snoc)
qed


lemma toLowerCase_Nil_iff [simp]: "toLowerCase s = [] \<longleftrightarrow> s = []"
  by (simp add: toLowerCase_def)

lemma padStart_index:
  assumes "n < 1000"
  shows "list_all is_digit (padStart 2 (CHR ''0'') (String_num n))"
    and "1 \<le> length (padStart 2 (CHR ''0'') (String_num n))"
    and "length (padStart 2 (CHR ''0'') (String_num n)) \<le> 3"
    and "parseInt (padStart 2 (CHR ''0'') (String_num n)) = n"
proof -
  have z: "is_digit (CHR ''0'')" by (simp add: is_digit_def)
  show "list_all is_digit (padStart 2 (CHR ''0'') (String_num n))"
    using z String_num_digits[of n] by (auto simp: padStart_def list_all_iff)
  show "1 \<le> length (padStart 2 (CHR ''0'') (String_num n))"
    using String_num_length[OF assms] by (simp add: padStart_def)
  show "length (padStart 2 (CHR ''0'') (String_num n)) \<le> 3"
    using String_num_length[OF assms] by (simp add: padStart_def) arith
  show "parseInt (padStart 2 (CHR ''0'') (String_num n)) = n"
    by (simp add: padStart_def parseInt_zeros parseInt_String_num)
qed

text \<open>Rendering the parsed fields gives an address that parses to the same fields.\<close>

lemma parse_render_inverse_aux:
  assumes "parseSubdomain adr = Some a"
  shows "parseSubdomain (render_parsed a) = Some a \<and>
         (\<exists>m1 m2 m3 m4 m5. matches_SUBDOMAIN_RE adr m1 m2 m3 m4 m5 \<and>
            render_parsed a =
              ''https://'' @ toLowerCase m1 @ padStart 2 (CHR ''0'') (String_num (parseInt m2)) @
              ''.'' @ toLowerCase m3 @ ''.'' @ toLowerCase m4 @ m5)"
proof -
  from assms obtain m1 m2 m3 m4 m5 where m: "matches_SUBDOMAIN_RE adr m1 m2 m3 m4 m5"
    and a: "a = \<lparr>prefix = toLowerCase m1, number = parseInt m2, root = toLowerCase m3,
              tld = toLowerCase m4, path = m5\<rparr>"
    unfolding parseSubdomain_Some_iff by blast
  define d where "d = padStart 2 (CHR ''0'') (String_num (parseInt m2))"
  have r: "render_parsed a =
      ''https://'' @ toLowerCase m1 @ d @ ''.'' @ toLowerCase m3 @ ''.'' @ toLowerCase m4 @ m5"
    by (simp add: a render_parsed_def render_url_def d_def)
  from m have c1: "m1 \<noteq> []" "list_all is_letter m1"
    and c2: "length m2 \<le> 3" "list_all is_digit m2"
    and c3: "m3 \<noteq> []" "list_all is_rootch m3"
    and c4: "toLowerCase m4 = ''org'' \<or> toLowerCase m4 = ''net'' \<or> toLowerCase m4 = ''to''"
    and c5: "\<exists>rest. m5 = CHR ''/'' # rest \<and> list_all (\<lambda>d. \<not> is_line_terminator d) rest"
    unfolding matches_SUBDOMAIN_RE_def by blast+
  have "parseInt m2 < 10 ^ length m2" using c2(2) by (rule parseInt_bound)
  also have "\<dots> \<le> (10::nat) ^ 3" using c2(1) by (intro power_increasing) auto
  finally have n: "parseInt m2 < 1000" by simp
  note dp = padStart_index[OF n, folded d_def]
  have sch: "render_parsed a =
      ''https'' @ ''://'' @ toLowerCase m1 @ d @ ''.'' @ toLowerCase m3 @ ''.'' @ toLowerCase m4 @ m5"
    using r by simp
  have "matches_SUBDOMAIN_RE (render_parsed a) (toLowerCase m1) d (toLowerCase m3) (toLowerCase m4) m5"
    unfolding matches_SUBDOMAIN_RE_def
  proof (intro conjI)
    show "\<exists>sch. render_parsed a =
        sch @ ''://'' @ toLowerCase m1 @ d @ ''.'' @ toLowerCase m3 @ ''.'' @ toLowerCase m4 @ m5 \<and>
        (toLowerCase sch = ''http'' \<or> toLowerCase sch = ''https'')"
      by (rule exI[of _ "''https''"]) (simp add: r toLowerCase_char_def)
  qed (use c1 c3 c4 c5 dp in simp_all)
  moreover have "a = \<lparr>prefix = toLowerCase (toLowerCase m1), number = parseInt d,
      root = toLowerCase (toLowerCase m3), tld = toLowerCase (toLowerCase m4), path = m5\<rparr>"
    using a dp(4) by simp
  ultimately have "parseSubdomain (render_parsed a) = Some a"
    unfolding parseSubdomain_Some_iff by blast
  then show ?thesis using m r d_def by blast
qed

section \<open>Properties of the candidate list\<close>

text \<open>A \<open>Set\<close> read back as an array: the elements not seen before, each once.\<close>

lemma set_Set_from: "set (Set_from seen xs) = set xs - set seen"
  by (induction xs arbitrary: seen) auto

lemma distinct_Set_from: "distinct (Set_from seen xs)"
  by (induction xs arbitrary: seen) (auto simp: set_Set_from)

lemma class_of_cong: "set cs = set ds \<Longrightarrow> class_of cs u = class_of ds u"
proof -
  assume "set cs = set ds"
  then have "set (map priority (filter (\<lambda>c. url c = u) cs)) = set (map priority (filter (\<lambda>c. url c = u) ds))"
    by auto
  then show ?thesis by (simp only: class_of_def)
qed

lemma class_of_Cons_other: "url c \<noteq> u \<Longrightarrow> class_of (c # cs) u = class_of cs u"
  by (simp add: class_of_def)

lemma class_of_Cons_first:
  assumes "\<forall>d\<in>set cs. priority c \<le> priority d"
  shows "class_of (c # cs) (url c) = priority c"
proof -
  have "Min (insert (priority c) (priority ` {d \<in> set cs. url d = url c})) = priority c"
    using assms by (intro Min_eqI) auto
  then show ?thesis by (simp add: class_of_def)
qed

lemma class_of_lower_bound:
  assumes "\<forall>d\<in>set cs. k \<le> priority d" and "u \<in> url ` set cs"
  shows "k \<le> class_of cs u"
proof -
  have "set (map priority (filter (\<lambda>c. url c = u) cs)) \<noteq> {}" using assms(2) by auto
  then show ?thesis using assms(1) by (auto simp: class_of_def)
qed

text \<open>In an array sorted by priority the first occurrence of a URL carries its class, so the classes of the first occurrences never decrease.\<close>

lemma sorted_class_Set_from:
  "sorted (map priority cs) \<Longrightarrow> sorted (map (class_of cs) (Set_from seen (map url cs)))"
proof (induction cs arbitrary: seen)
  case Nil
  then show ?case by simp
next
  case (Cons c cs)
  then have le: "\<forall>d\<in>set cs. priority c \<le> priority d" and s: "sorted (map priority cs)"
    by auto
  have other: "map (class_of (c # cs)) (Set_from sn (map url cs)) = map (class_of cs) (Set_from sn (map url cs))"
    if "url c \<in> set sn" for sn
    using that by (intro map_cong refl class_of_Cons_other) (auto simp: set_Set_from)
  show ?case
  proof (cases "url c \<in> set seen")
    case True
    then have e: "Set_from seen (url c # map url cs) = Set_from seen (map url cs)" by simp
    show ?thesis using Cons.IH[OF s, of seen] by (simp only: list.map e other[OF True])
  next
    case False
    then have e: "Set_from seen (url c # map url cs) = url c # Set_from (url c # seen) (map url cs)"
      by simp
    have r: "map (class_of (c # cs)) (Set_from (url c # seen) (map url cs)) =
             map (class_of cs) (Set_from (url c # seen) (map url cs))"
      by (rule other) simp
    have lb: "\<forall>u\<in>set (Set_from (url c # seen) (map url cs)). priority c \<le> class_of cs u"
      using le by (auto simp: set_Set_from intro!: class_of_lower_bound)
    have "sorted (priority c # map (class_of cs) (Set_from (url c # seen) (map url cs)))"
      using lb Cons.IH[OF s, of "url c # seen"] by simp
    then show ?thesis
      by (simp only: list.map e r class_of_Cons_first[OF le])
  qed
qed

lemma generateCandidates_sorted_full:
  "sorted (map (class_of (collectCandidates sc p))
     (Set_from [] (map url (sort_key priority (collectCandidates sc p)))))"
proof -
  let ?cs = "collectCandidates sc p"
  have "sorted (map (class_of (sort_key priority ?cs)) (Set_from [] (map url (sort_key priority ?cs))))"
    by (rule sorted_class_Set_from) simp
  moreover have "class_of (sort_key priority ?cs) = class_of ?cs"
    by (rule ext) (rule class_of_cong, simp)
  ultimately show ?thesis by simp
qed


section \<open>Properties of the resolver\<close>

lemma on_failure_t_i [simp]: "on_failure st (t\<lparr>t_i := k\<rparr>) = on_failure st t"
  by (simp add: on_failure_def)

text \<open>The loop, from its head: it passes over the candidates of failed hosts, and either sends the request for the first other candidate and waits, or finds none and ends in the failure handling.\<close>

lemma loop_from_cases:
  assumes "loop_from st t = (st', s)"
  shows "(\<exists>k. s = Suspended (t\<lparr>t_i := k\<rparr>) \<and> t_i t \<le> k \<and> k < length (t_candidates t) \<and>
              slice3 (t_candidates t ! k) \<notin> failedCache st \<and>
              (\<forall>j. t_i t \<le> j \<and> j < k \<longrightarrow> slice3 (t_candidates t ! j) \<in> failedCache st) \<and>
              st' = st\<lparr>requests := requests st @ [t_candidates t ! k]\<rparr>)
       \<or> (s = Ended (GaveUp (t_lastError t)) \<and> st' = on_failure st t \<and>
              (\<forall>j. t_i t \<le> j \<and> j < length (t_candidates t) \<longrightarrow>
                    slice3 (t_candidates t ! j) \<in> failedCache st))"
  using assms
proof (induction st t rule: loop_from.induct)
  case (1 st t)
  show ?case
  proof (cases "t_i t < length (t_candidates t)")
    case False
    then have "s = Ended (GaveUp (t_lastError t))" "st' = on_failure st t"
      using "1.prems" by (auto simp: loop_from.simps[of st t])
    then show ?thesis using False by auto
  next
    case True
    define u where "u = t_candidates t ! t_i t"
    show ?thesis
    proof (cases "slice3 u \<in> failedCache st")
      case f: True
      then have "loop_from st t = loop_from st (t\<lparr>t_i := t_i t + 1\<rparr>)"
        using True by (simp add: loop_from.simps[of st t] u_def)
      then have r: "loop_from st (t\<lparr>t_i := t_i t + 1\<rparr>) = (st', s)" using "1.prems" by simp
      have skip: "slice3 (t_candidates t ! j) \<in> failedCache st"
        if "t_i t \<le> j" "j < Suc (t_i t)" for j
        using that f u_def by (simp add: le_less_Suc_eq)
      from "1.IH"(1)[OF True u_def refl f r]
      show ?thesis
      proof (elim disjE exE conjE)
        fix k
        assume a: "s = Suspended (t\<lparr>t_i := t_i t + 1, t_i := k\<rparr>)"
          "t_i (t\<lparr>t_i := t_i t + 1\<rparr>) \<le> k"
          "k < length (t_candidates (t\<lparr>t_i := t_i t + 1\<rparr>))"
          "slice3 (t_candidates (t\<lparr>t_i := t_i t + 1\<rparr>) ! k) \<notin> failedCache st"
          "\<forall>j. t_i (t\<lparr>t_i := t_i t + 1\<rparr>) \<le> j \<and> j < k \<longrightarrow>
               slice3 (t_candidates (t\<lparr>t_i := t_i t + 1\<rparr>) ! j) \<in> failedCache st"
          "st' = st\<lparr>requests := requests st @ [t_candidates (t\<lparr>t_i := t_i t + 1\<rparr>) ! k]\<rparr>"
        have "\<forall>j. t_i t \<le> j \<and> j < k \<longrightarrow> slice3 (t_candidates t ! j) \<in> failedCache st"
        proof (intro allI impI)
          fix j assume j: "t_i t \<le> j \<and> j < k"
          show "slice3 (t_candidates t ! j) \<in> failedCache st"
          proof (cases "j = t_i t")
            case True
            then show ?thesis using f u_def by simp
          next
            case False
            then show ?thesis using a(5) j by simp
          qed
        qed
        then show ?thesis using a by auto
      next
        assume a: "s = Ended (GaveUp (t_lastError (t\<lparr>t_i := t_i t + 1\<rparr>)))"
          "st' = on_failure st (t\<lparr>t_i := t_i t + 1\<rparr>)"
          "\<forall>j. t_i (t\<lparr>t_i := t_i t + 1\<rparr>) \<le> j \<and> j < length (t_candidates (t\<lparr>t_i := t_i t + 1\<rparr>)) \<longrightarrow>
               slice3 (t_candidates (t\<lparr>t_i := t_i t + 1\<rparr>) ! j) \<in> failedCache st"
        have "\<forall>j. t_i t \<le> j \<and> j < length (t_candidates t) \<longrightarrow>
                 slice3 (t_candidates t ! j) \<in> failedCache st"
        proof (intro allI impI)
          fix j assume j: "t_i t \<le> j \<and> j < length (t_candidates t)"
          show "slice3 (t_candidates t ! j) \<in> failedCache st"
          proof (cases "j = t_i t")
            case True
            then show ?thesis using f u_def by simp
          next
            case False
            then show ?thesis using a(3) j by simp
          qed
        qed
        then show ?thesis using a by simp
      qed
    next
      case f: False
      then have "probeUrl_begin st u = Inr (st\<lparr>requests := requests st @ [u]\<rparr>)"
        by (simp add: probeUrl_begin_def)
      then have "loop_from st t = (st\<lparr>requests := requests st @ [u]\<rparr>, Suspended t)"
        using True f by (simp add: loop_from.simps[of st t] u_def)
      then have "s = Suspended (t\<lparr>t_i := t_i t\<rparr>)" "st' = st\<lparr>requests := requests st @ [u]\<rparr>"
        using "1.prems" by simp_all
      then show ?thesis using True f u_def by (intro disjI1 exI[of _ "t_i t"]) auto
    qed
  qed
qed


lemma loop_from_Suspended_eq:
  assumes "loop_from st t = (st', Suspended t')"
  shows "st' = st\<lparr>requests := requests st @ [t_candidates t ! t_i t']\<rparr>"
    and "t' = t\<lparr>t_i := t_i t'\<rparr>" and "t_i t \<le> t_i t'" and "t_i t' < length (t_candidates t)"
    and "slice3 (t_candidates t ! t_i t') \<notin> failedCache st"
  using loop_from_cases[OF assms] by auto

lemma loop_from_Ended_eq:
  assumes "loop_from st t = (st', Ended r)"
  shows "r = GaveUp (t_lastError t)" and "st' = on_failure st t"
  using loop_from_cases[OF assms] by auto

lemma on_failure_fields [simp]:
  "timers (on_failure st t) =
     timers st @ (if \<not> t_isRetry t \<and> t_lastError t = Some Timeout then [(RETRY_DELAY, t_img t)] else [])"
  "processingImages (on_failure st t) = processingImages st - {t_img t}"
  "failedCache (on_failure st t) = failedCache st"
  "serverCache (on_failure st t) = serverCache st"
  "requests (on_failure st t) = requests st"
  "j = t_img t \<Longrightarrow> batoFixing (images (on_failure st t) j) =
     Some (if \<not> t_isRetry t \<and> t_lastError t = Some Timeout then ''retry'' else ''failed'')"
  "src (images (on_failure st t) j) = src (images st j)"
  by (simp_all add: on_failure_def set_batoFixing_def processingImages_delete_def Let_def)

lemma on_success_fields [simp]:
  "timers (on_success st t u) = timers st"
  "processingImages (on_success st t u) = processingImages st - {t_img t}"
  "failedCache (on_success st t u) = failedCache st"
  "requests (on_success st t u) = requests st"
  "j = t_img t \<Longrightarrow> batoFixing (images (on_success st t u) j) = Some ''done''"
  "j = t_img t \<Longrightarrow> src (images (on_success st t u) j) = u"
  by (simp_all add: on_success_def processingImages_delete_def Let_def
      split: option.splits)

lemma probeUrl_end_fields:
  assumes "probeUrl_end st u ev = (r, st')"
  shows "timers st' = timers st" and "processingImages st' = processingImages st"
    and "images st' = images st" and "requests st' = requests st"
    and "serverCache st' = serverCache st"
    and "failedCache st' = (if r = Resolved then failedCache st else insert (slice3 u) (failedCache st))"
  using assms by (auto simp: probeUrl_end_def Let_def split: net_event.splits if_splits)

text \<open>A settled probe after which the call waits again: the probe was rejected, its host is in the failure cache, and a later candidate has been asked for.\<close>

lemma settle_Suspended_eq:
  assumes "settle st t ev = (st', Suspended t')"
  shows "timers st' = timers st" and "processingImages st' = processingImages st"
    and "images st' = images st" and "serverCache st' = serverCache st"
    and "failedCache st' = insert (slice3 (t_candidates t ! t_i t)) (failedCache st)"
    and "requests st' = requests st @ [t_candidates t ! t_i t']"
    and "t_img t' = t_img t" and "t_isRetry t' = t_isRetry t"
    and "t_candidates t' = t_candidates t" and "t_parsed t' = t_parsed t"
    and "t_i t < t_i t'" and "t_i t' < length (t_candidates t)"
    and "t_lastError t' \<noteq> None"
    and "t_lastError t' = Some Timeout \<longrightarrow> t_i t \<le> 6"
    and "\<forall>j. t_i t < j \<and> j < t_i t' \<longrightarrow> slice3 (t_candidates t ! j) \<in> failedCache st'"
proof -
  obtain r st1 where p: "probeUrl_end st (t_candidates t ! t_i t) ev = (r, st1)"
    by (cases "probeUrl_end st (t_candidates t ! t_i t) ev")
  from assms p obtain e where r: "r = Rejected e" and g: "\<not> (e = Timeout \<and> t_i t > 6)"
    and l: "loop_from st1 (t\<lparr>t_lastError := Some e, t_i := t_i t + 1\<rparr>) = (st', Suspended t')"
    by (auto simp: settle_def Let_def split: probe_result.splits if_splits)
  note f = probeUrl_end_fields[OF p]
  note q = loop_from_Suspended_eq[OF l]
  have t': "t' = t\<lparr>t_lastError := Some e, t_i := t_i t'\<rparr>" using q(2) by simp
  have "\<forall>j. t_i t < j \<and> j < t_i t' \<longrightarrow> slice3 (t_candidates t ! j) \<in> failedCache st1"
    using loop_from_cases[OF l] by auto
  then show "\<forall>j. t_i t < j \<and> j < t_i t' \<longrightarrow> slice3 (t_candidates t ! j) \<in> failedCache st'"
    using q(1) by simp
  show "timers st' = timers st" using q(1) f by simp
  show "processingImages st' = processingImages st" using q(1) f by simp
  show "images st' = images st" using q(1) f by simp
  show "serverCache st' = serverCache st" using q(1) f by simp
  show "failedCache st' = insert (slice3 (t_candidates t ! t_i t)) (failedCache st)"
    using q(1) f r by simp
  show "requests st' = requests st @ [t_candidates t ! t_i t']" using q(1) f by simp
  show "t_img t' = t_img t" by (subst t') simp
  show "t_isRetry t' = t_isRetry t" by (subst t') simp
  show "t_candidates t' = t_candidates t" by (subst t') simp
  show "t_parsed t' = t_parsed t" by (subst t') simp
  show "t_i t < t_i t'" using q(3) by simp
  show "t_i t' < length (t_candidates t)" using q(4) by simp
  show "t_lastError t' \<noteq> None" by (subst t') simp
  show "t_lastError t' = Some Timeout \<longrightarrow> t_i t \<le> 6" using g by (subst t') auto
qed

text \<open>A settled probe that ends the call: success, or the failure handling, reached by the \<open>break\<close> or at the end of the list.\<close>

lemma settle_Ended_eq:
  assumes "settle st t ev = (st', Ended r)"
  shows "(r = Fixed (t_candidates t ! t_i t) \<and> st' = on_success st t (t_candidates t ! t_i t) \<and>
          probeUrl_end st (t_candidates t ! t_i t) ev = (Resolved, st))
       \<or> (\<exists>e. r = GaveUp (Some e) \<and>
               probeUrl_end st (t_candidates t ! t_i t) ev =
                 (Rejected e, st\<lparr>failedCache := insert (slice3 (t_candidates t ! t_i t)) (failedCache st)\<rparr>) \<and>
               st' = on_failure (st\<lparr>failedCache := insert (slice3 (t_candidates t ! t_i t)) (failedCache st)\<rparr>)
                       (t\<lparr>t_lastError := Some e\<rparr>) \<and>
               ((e = Timeout \<and> 6 < t_i t) \<or>
                (\<forall>j. t_i t < j \<and> j < length (t_candidates t) \<longrightarrow>
                      slice3 (t_candidates t ! j) \<in> failedCache st')))"
proof -
  obtain pr st1 where p: "probeUrl_end st (t_candidates t ! t_i t) ev = (pr, st1)"
    by (cases "probeUrl_end st (t_candidates t ! t_i t) ev")
  show ?thesis
  proof (cases pr)
    case Resolved
    then have "st1 = st" using p
      by (auto simp: probeUrl_end_def Let_def split: net_event.splits if_splits)
    then show ?thesis using assms p Resolved by (simp add: settle_def Let_def)
  next
    case (Rejected e)
    then have s1: "st1 = st\<lparr>failedCache := insert (slice3 (t_candidates t ! t_i t)) (failedCache st)\<rparr>"
      using p by (auto simp: probeUrl_end_def Let_def split: net_event.splits if_splits)
    show ?thesis
    proof (cases "e = Timeout \<and> t_i t > 6")
      case True
      then show ?thesis using assms p Rejected s1 by (simp add: settle_def Let_def)
    next
      case False
      then have "loop_from st1 (t\<lparr>t_lastError := Some e, t_i := t_i t + 1\<rparr>) = (st', Ended r)"
        using assms p Rejected by (auto simp: settle_def Let_def)
      from loop_from_cases[OF this] show ?thesis using p Rejected s1 by auto
    qed
  qed
qed


lemma probeUrl_end_Rejected_Timeout:
  "probeUrl_end st u ev = (Rejected Timeout, st') \<Longrightarrow> ev = TimerFired"
  by (auto simp: probeUrl_end_def Let_def split: net_event.splits if_splits)

text \<open>A waiting call run to its end.\<close>

lemma drive_Suspended_aux:
  "drive net x = (st', r) \<Longrightarrow> x = (st, Suspended t) \<Longrightarrow>
     timers st' = timers st @
           (if \<not> t_isRetry t \<and> r = GaveUp (Some Timeout) then [(RETRY_DELAY, t_img t)] else []) \<and>
     processingImages st' = processingImages st - {t_img t} \<and>
     failedCache st \<subseteq> failedCache st' \<and>
     r \<noteq> Skipped \<and> r \<noteq> NoParse \<and> r \<noteq> GaveUp None \<and>
     (\<forall>e. r = GaveUp e \<longrightarrow> batoFixing (images st' (t_img t)) =
           Some (if \<not> t_isRetry t \<and> e = Some Timeout then ''retry'' else ''failed'')) \<and>
     (\<forall>u. r = Fixed u \<longrightarrow> batoFixing (images st' (t_img t)) = Some ''done'' \<and>
           src (images st' (t_img t)) = u)"
proof (induction net x arbitrary: st t rule: drive.induct)
  case (1 net st0 r0)
  then show ?case by simp
next
  case (2 net st0 t0)
  then have [simp]: "st0 = st" "t0 = t" by simp_all
  define ev where "ev = net (t_candidates t ! t_i t)"
  obtain st1 s1 where s: "settle st t ev = (st1, s1)" by (cases "settle st t ev")
  have d: "drive net (st1, s1) = (st', r)" using "2.prems" s ev_def by simp
  show ?case
  proof (cases s1)
    case (Ended r1)
    then have "st' = st1" "r = r1" using d by simp_all
    then show ?thesis using settle_Ended_eq[OF s[unfolded Ended]] by auto
  next
    case (Suspended t1)
    note q = settle_Suspended_eq[OF s[unfolded Suspended]]
    have "drive net (settle st0 t0 (net (t_candidates t0 ! t_i t0))) = (st', r)"
      using "2.prems" by simp
    from "2.IH"[OF this, of st1 t1] s Suspended
    show ?thesis using q by (auto simp: ev_def)
  qed
qed

lemmas drive_Suspended_props = drive_Suspended_aux[OF _ refl]


lemma set_batoFixing_fields [simp]:
  "timers (set_batoFixing st i v) = timers st"
  "processingImages (set_batoFixing st i v) = processingImages st"
  "failedCache (set_batoFixing st i v) = failedCache st"
  "serverCache (set_batoFixing st i v) = serverCache st"
  "requests (set_batoFixing st i v) = requests st"
  "batoFixing (images (set_batoFixing st i v) i) = Some v"
  "src (images (set_batoFixing st i v) j) = src (images st j)"
  by (simp_all add: set_batoFixing_def)

lemma fixImage_start_guard:
  "i \<in> processingImages st \<or> batoFixing (images st i) = Some ''done'' \<or>
     (batoFixing (images st i) = Some ''true'' \<and> \<not> isRetry) \<Longrightarrow>
   fixImage_start st i isRetry = (st, Ended Skipped)"
  by (auto simp: fixImage_start_def)

text \<open>The three ways through the head of \<open>fixImage\<close>.\<close>

lemma fixImage_start_cases:
  assumes "fixImage_start st i isRetry = (st', s)"
  shows "(s = Ended Skipped \<and> st' = st \<and>
          (i \<in> processingImages st \<or> batoFixing (images st i) = Some ''done'' \<or>
           (batoFixing (images st i) = Some ''true'' \<and> \<not> isRetry)))
       \<or> (i \<notin> processingImages st \<and> parseSubdomain (src (images st i)) = None \<and>
           s = Ended NoParse \<and> st' = set_batoFixing st i ''true'')
       \<or> (i \<notin> processingImages st \<and>
           (\<exists>p. parseSubdomain (src (images st i)) = Some p \<and>
                loop_from (set_batoFixing (st\<lparr>processingImages := insert i (processingImages st)\<rparr>) i ''true'')
                  \<lparr>t_img = i, t_isRetry = isRetry, t_parsed = p,
                   t_candidates = generateCandidates (serverCache st) p,
                   t_i = 0, t_lastError = None\<rparr> = (st', s)))"
proof (cases "i \<in> processingImages st \<or> batoFixing (images st i) = Some ''done'' \<or>
     (batoFixing (images st i) = Some ''true'' \<and> \<not> isRetry)")
  case True
  then show ?thesis using assms fixImage_start_guard[OF True] by simp
next
  case False
  then have n: "i \<notin> processingImages st" by simp
  have src: "src (images (set_batoFixing (st\<lparr>processingImages := insert i (processingImages st)\<rparr>) i ''true'') i)
      = src (images st i)"
    by (simp add: set_batoFixing_def)
  have sc: "serverCache (set_batoFixing (st\<lparr>processingImages := insert i (processingImages st)\<rparr>) i ''true'')
      = serverCache st"
    by (simp add: set_batoFixing_def)
  define st1 where "st1 = set_batoFixing (st\<lparr>processingImages := insert i (processingImages st)\<rparr>) i ''true''"
  have eq: "fixImage_start st i isRetry =
      (case parseSubdomain (src (images st i)) of
         None \<Rightarrow> (processingImages_delete st1 i, Ended NoParse)
       | Some p \<Rightarrow> loop_from st1 \<lparr>t_img = i, t_isRetry = isRetry, t_parsed = p,
                   t_candidates = generateCandidates (serverCache st) p,
                   t_i = 0, t_lastError = None\<rparr>)"
    using False by (auto simp: fixImage_start_def Let_def st1_def split: option.splits)
  show ?thesis
  proof (cases "parseSubdomain (src (images st i))")
    case None
    have "processingImages_delete (set_batoFixing (st\<lparr>processingImages := insert i (processingImages st)\<rparr>) i ''true'') i
        = set_batoFixing st i ''true''"
      using n by (simp add: processingImages_delete_def set_batoFixing_def)
    then show ?thesis using assms None n
      by (simp add: eq st1_def)
  next
    case (Some p)
    then show ?thesis using assms n
      by (simp add: eq st1_def)
  qed
qed

text \<open>Each step of the page keeps the tasks and \<open>processingImages\<close> in agreement.\<close>

lemma sane_enter:
  assumes "sane w" and "fixImage_start (w_state w) i isRetry = (st', s)"
  shows "sane (enter w (st', s))"
proof -
  from fixImage_start_cases[OF assms(2)]
  consider (skip) "s = Ended Skipped" "st' = w_state w"
    | (noparse) "s = Ended NoParse" "st' = set_batoFixing (w_state w) i ''true''"
    | (loop) p where "i \<notin> processingImages (w_state w)"
        "loop_from (set_batoFixing ((w_state w)\<lparr>processingImages := insert i (processingImages (w_state w))\<rparr>) i ''true'')
                  \<lparr>t_img = i, t_isRetry = isRetry, t_parsed = p,
                   t_candidates = generateCandidates (serverCache (w_state w)) p,
                   t_i = 0, t_lastError = None\<rparr> = (st', s)"
    by blast
  then show ?thesis
  proof cases
    case skip
    then show ?thesis using assms(1) by (simp add: enter_def sane_def)
  next
    case noparse
    then show ?thesis using assms(1) by (simp add: enter_def sane_def)
  next
    case loop
    note n = loop(1) and l = loop(2)
  show ?thesis
  proof (cases s)
    case (Suspended t')
    note q = loop_from_Suspended_eq[OF l[unfolded Suspended]]
    have "t_img t' = i" by (subst q(2)) simp
    moreover have "processingImages st' = insert i (processingImages (w_state w))"
      by (subst q(1)) simp
    ultimately show ?thesis using assms(1) n Suspended by (auto simp: enter_def sane_def)
  next
    case (Ended r)
    note q = loop_from_Ended_eq[OF l[unfolded Ended]]
    have "processingImages st' = processingImages (w_state w)"
      using n by (subst q(2)) simp
    then show ?thesis using assms(1) Ended by (simp add: enter_def sane_def)
  qed
  qed
qed

lemma sane_apply_event: "sane w \<Longrightarrow> sane (apply_event w e)"
proof (cases e)
  case (Call i isRetry)
  assume "sane w"
  then show ?thesis using Call sane_enter[of w i isRetry]
    by (cases "fixImage_start (w_state w) i isRetry") (simp add: apply_event_def)
next
  case (Settled k ev)
  assume w: "sane w"
  show ?thesis
  proof (cases "k < length (w_tasks w)")
    case False
    then show ?thesis using w Settled by (simp add: apply_event_def)
  next
    case True
    obtain st' s where s: "settle (w_state w) (w_tasks w ! k) ev = (st', s)"
      by (cases "settle (w_state w) (w_tasks w ! k) ev")
    show ?thesis
    proof (cases s)
      case (Suspended t')
      note q = settle_Suspended_eq[OF s[unfolded Suspended]]
      have "map t_img ((w_tasks w)[k := t']) = map t_img (w_tasks w)"
        using q(7) True by (simp add: map_update list_update_same_conv)
      then show ?thesis using w Settled True s Suspended q(2)
        by (simp add: apply_event_def sane_def)
    next
      case (Ended r)
      from settle_Ended_eq[OF s[unfolded Ended]]
      have p: "processingImages st' = processingImages (w_state w) - {t_img (w_tasks w ! k)}"
        by auto
      have id: "w_tasks w = take k (w_tasks w) @ (w_tasks w ! k) # drop (Suc k) (w_tasks w)"
        using True by (simp add: id_take_nth_drop)
      have d: "distinct (map t_img (take k (w_tasks w) @ (w_tasks w ! k) # drop (Suc k) (w_tasks w)))"
        and e: "set (map t_img (take k (w_tasks w) @ (w_tasks w ! k) # drop (Suc k) (w_tasks w)))
                 = processingImages (w_state w)"
        using w id by (simp_all only: sane_def)
      have "sane \<lparr>w_state = st', w_tasks = take k (w_tasks w) @ drop (Suc k) (w_tasks w)\<rparr>"
        unfolding sane_def using d e p by auto
      then show ?thesis using Settled True s Ended by (simp add: apply_event_def)
    qed
  qed
next
  case (TimerDue k)
  assume w: "sane w"
  show ?thesis
  proof (cases "k < length (timers (w_state w))")
    case False
    then show ?thesis using w TimerDue by (simp add: apply_event_def)
  next
    case True
    define st1 where "st1 = (w_state w)\<lparr>timers := take k (timers (w_state w)) @
                                                  drop (Suc k) (timers (w_state w))\<rparr>"
    have w1: "sane (w\<lparr>w_state := st1\<rparr>)" using w by (simp add: sane_def st1_def)
    define i where "i = snd (timers (w_state w) ! k)"
    obtain st' s where r: "fixImage_start st1 i True = (st', s)"
      by (cases "fixImage_start st1 i True")
    have "sane (enter (w\<lparr>w_state := st1\<rparr>) (st', s))"
      using sane_enter[OF w1, of i True st' s] r by simp
    then show ?thesis using w1 TimerDue True r
      by (simp add: apply_event_def Let_def st1_def[symmetric] i_def[symmetric])
  qed
next
  case (Page i im)
  assume "sane w"
  then show ?thesis using Page by (simp add: apply_event_def sane_def)
qed

lemma sane_run_events: "sane w \<Longrightarrow> sane (run_events w evs)"
  by (induction evs rule: rev_induct) (simp_all add: run_events_def sane_apply_event)

lemma sane_initial: "sane (initial imgs)"
  by (simp add: sane_def initial_def)


text \<open>A whole call.\<close>

lemma fixImage_props:
  assumes "fixImage net st i isRetry = (st', r)"
  shows "timers st' = timers st @
           (if \<not> isRetry \<and> r = GaveUp (Some Timeout) then [(RETRY_DELAY, i)] else [])"
    and "\<forall>e. r = GaveUp e \<longrightarrow> batoFixing (images st' i) =
           Some (if \<not> isRetry \<and> e = Some Timeout then ''retry'' else ''failed'')"
    and "\<forall>u. r = Fixed u \<longrightarrow> batoFixing (images st' i) = Some ''done'' \<and> src (images st' i) = u"
    and "failedCache st \<subseteq> failedCache st'"
    and "processingImages st' = processingImages st"
proof -
  obtain st1 s where f: "fixImage_start st i isRetry = (st1, s)"
    by (cases "fixImage_start st i isRetry")
  have d: "drive net (st1, s) = (st', r)" using assms f by (simp add: fixImage_def)
  from fixImage_start_cases[OF f]
  consider (skip) "s = Ended Skipped" "st1 = st"
    | (noparse) "s = Ended NoParse" "st1 = set_batoFixing st i ''true''"
    | (loop) p where "i \<notin> processingImages st"
        "loop_from (set_batoFixing (st\<lparr>processingImages := insert i (processingImages st)\<rparr>) i ''true'')
                  \<lparr>t_img = i, t_isRetry = isRetry, t_parsed = p,
                   t_candidates = generateCandidates (serverCache st) p,
                   t_i = 0, t_lastError = None\<rparr> = (st1, s)"
    by blast
  then have "timers st' = timers st @
           (if \<not> isRetry \<and> r = GaveUp (Some Timeout) then [(RETRY_DELAY, i)] else []) \<and>
     (\<forall>e. r = GaveUp e \<longrightarrow> batoFixing (images st' i) =
           Some (if \<not> isRetry \<and> e = Some Timeout then ''retry'' else ''failed'')) \<and>
     (\<forall>u. r = Fixed u \<longrightarrow> batoFixing (images st' i) = Some ''done'' \<and> src (images st' i) = u) \<and>
     failedCache st \<subseteq> failedCache st' \<and> processingImages st' = processingImages st"
  proof cases
    case skip
    then show ?thesis using d by auto
  next
    case noparse
    then show ?thesis using d by auto
  next
    case loop
    note n = loop(1) and l = loop(2)
    show ?thesis
    proof (cases s)
      case (Ended r1)
      note q = loop_from_Ended_eq[OF l[unfolded Ended]]
      have "st' = st1" "r = r1" using d Ended by simp_all
      then show ?thesis using q n by simp
    next
      case (Suspended t')
      note q = loop_from_Suspended_eq[OF l[unfolded Suspended]]
      have t: "t_img t' = i" "t_isRetry t' = isRetry" by (subst q(2), simp)+
      have s1: "timers st1 = timers st" "failedCache st1 = failedCache st"
        "processingImages st1 = insert i (processingImages st)"
        by (subst q(1), simp)+
      from drive_Suspended_props[OF d[unfolded Suspended]]
      show ?thesis using t s1 n by auto
    qed
  qed
  then show "timers st' = timers st @
           (if \<not> isRetry \<and> r = GaveUp (Some Timeout) then [(RETRY_DELAY, i)] else [])"
    and "\<forall>e. r = GaveUp e \<longrightarrow> batoFixing (images st' i) =
           Some (if \<not> isRetry \<and> e = Some Timeout then ''retry'' else ''failed'')"
    and "\<forall>u. r = Fixed u \<longrightarrow> batoFixing (images st' i) = Some ''done'' \<and> src (images st' i) = u"
    and "failedCache st \<subseteq> failedCache st'"
    and "processingImages st' = processingImages st"
    by blast+
qed

text \<open>A call gives up with an untried candidate left only by the \<open>break\<close>.\<close>

lemma drive_abandon_aux:
  "drive net x = (st', GaveUp e) \<Longrightarrow> x = (st, Suspended t) \<Longrightarrow>
   requests st \<noteq> [] \<Longrightarrow> last (requests st) = t_candidates t ! t_i t \<Longrightarrow>
   (\<forall>j<t_i t. slice3 (t_candidates t ! j) \<in> failedCache st) \<Longrightarrow>
   (\<exists>j<length (t_candidates t). slice3 (t_candidates t ! j) \<notin> failedCache st') \<Longrightarrow>
   e = Some Timeout \<and>
   (\<exists>k. 6 < k \<and> k < length (t_candidates t) \<and> requests st' \<noteq> [] \<and>
        last (requests st') = t_candidates t ! k \<and> net (t_candidates t ! k) = TimerFired)"
proof (induction net x arbitrary: st t rule: drive.induct)
  case (1 net st0 r0)
  then show ?case by simp
next
  case (2 net st0 t0)
  then have [simp]: "st0 = st" "t0 = t" by simp_all
  define ev where "ev = net (t_candidates t ! t_i t)"
  obtain st1 s1 where s: "settle st t ev = (st1, s1)" by (cases "settle st t ev")
  have d: "drive net (st1, s1) = (st', GaveUp e)" using "2.prems"(1) s ev_def by simp
  from "2.prems" obtain j0 where j0: "j0 < length (t_candidates t)"
    "slice3 (t_candidates t ! j0) \<notin> failedCache st'" by blast
  show ?case
  proof (cases s1)
    case (Ended r1)
    then have e1: "st' = st1" "r1 = GaveUp e" using d by simp_all
    from settle_Ended_eq[OF s[unfolded Ended]] e1
    obtain e' where e': "e = Some e'"
      and p: "probeUrl_end st (t_candidates t ! t_i t) ev =
                 (Rejected e', st\<lparr>failedCache := insert (slice3 (t_candidates t ! t_i t)) (failedCache st)\<rparr>)"
      and st': "st' = on_failure (st\<lparr>failedCache := insert (slice3 (t_candidates t ! t_i t)) (failedCache st)\<rparr>)
                       (t\<lparr>t_lastError := Some e'\<rparr>)"
      and c: "(e' = Timeout \<and> 6 < t_i t) \<or>
                (\<forall>j. t_i t < j \<and> j < length (t_candidates t) \<longrightarrow>
                      slice3 (t_candidates t ! j) \<in> failedCache st')"
      by auto
    have fc: "failedCache st' = insert (slice3 (t_candidates t ! t_i t)) (failedCache st)"
      by (subst st') simp
    have "\<not> (\<forall>j. t_i t < j \<and> j < length (t_candidates t) \<longrightarrow>
                      slice3 (t_candidates t ! j) \<in> failedCache st')"
    proof
      assume a: "\<forall>j. t_i t < j \<and> j < length (t_candidates t) \<longrightarrow>
                      slice3 (t_candidates t ! j) \<in> failedCache st'"
      have "slice3 (t_candidates t ! j0) \<in> failedCache st'"
      proof (cases "j0 < t_i t")
        case True
        then show ?thesis using "2.prems"(5) fc by simp
      next
        case False
        then show ?thesis using a j0(1) fc by (cases "j0 = t_i t") auto
      qed
      then show False using j0(2) by simp
    qed
    then have to: "e' = Timeout" "6 < t_i t" using c by auto
    have "ev = TimerFired" using p to(1) by (auto dest: probeUrl_end_Rejected_Timeout)
    moreover have "requests st' = requests st" by (subst st') simp
    moreover have "t_i t < length (t_candidates t)"
    proof (rule ccontr)
      assume "\<not> t_i t < length (t_candidates t)"
      then have "j0 < t_i t" using j0(1) by simp
      then show False using "2.prems"(5) j0(2) fc by simp
    qed
    ultimately show ?thesis using e' to "2.prems"(3,4) ev_def by auto
  next
    case (Suspended t1)
    note q = settle_Suspended_eq[OF s[unfolded Suspended]]
    have dd: "drive net (settle st0 t0 (net (t_candidates t0 ! t_i t0))) = (st', GaveUp e)"
      using "2.prems"(1) by simp
    have x: "settle st0 t0 (net (t_candidates t0 ! t_i t0)) = (st1, Suspended t1)"
      using s Suspended ev_def by simp
    have r1: "requests st1 \<noteq> []" and r2: "last (requests st1) = t_candidates t1 ! t_i t1"
      using q(6,9) by simp_all
    have i: "\<forall>j<t_i t1. slice3 (t_candidates t1 ! j) \<in> failedCache st1"
    proof (intro allI impI)
      fix j assume j: "j < t_i t1"
      consider "j < t_i t" | "j = t_i t" | "t_i t < j" by linarith
      then show "slice3 (t_candidates t1 ! j) \<in> failedCache st1"
      proof cases
        case 1
        then show ?thesis using "2.prems"(5) q(5,9) by simp
      next
        case 2
        then show ?thesis using q(5,9) by simp
      next
        case 3
        then show ?thesis using q(15) j q(9) by simp
      qed
    qed
    have u: "\<exists>j<length (t_candidates t1). slice3 (t_candidates t1 ! j) \<notin> failedCache st'"
      using j0 q(9) by auto
    from "2.IH"[OF dd x r1 r2 i u] show ?thesis using q(9) by simp
  qed
qed


lemma fixImage_abandon:
  assumes f: "fixImage net st i isRetry = (st', GaveUp e)"
    and p: "parseSubdomain (src (images st i)) = Some p"
    and u: "\<exists>j<length (generateCandidates (serverCache st) p).
              slice3 (generateCandidates (serverCache st) p ! j) \<notin> failedCache st'"
  shows "e = Some Timeout \<and>
         (\<exists>k. 6 < k \<and> k < length (generateCandidates (serverCache st) p) \<and> requests st' \<noteq> [] \<and>
              last (requests st') = generateCandidates (serverCache st) p ! k \<and>
              net (generateCandidates (serverCache st) p ! k) = TimerFired)"
proof -
  let ?cs = "generateCandidates (serverCache st) p"
  obtain st1 s where fs: "fixImage_start st i isRetry = (st1, s)"
    by (cases "fixImage_start st i isRetry")
  have d: "drive net (st1, s) = (st', GaveUp e)" using f fs by (simp add: fixImage_def)
  from fixImage_start_cases[OF fs] p
  consider (skip) "s = Ended Skipped"
    | (loop) "loop_from (set_batoFixing (st\<lparr>processingImages := insert i (processingImages st)\<rparr>) i ''true'')
                  \<lparr>t_img = i, t_isRetry = isRetry, t_parsed = p, t_candidates = ?cs,
                   t_i = 0, t_lastError = None\<rparr> = (st1, s)"
    by auto
  then show ?thesis
  proof cases
    case skip
    then show ?thesis using d by simp
  next
    case loop
    from loop_from_cases[OF loop]
    show ?thesis
    proof (elim disjE exE conjE)
      fix k
      assume a: "s = Suspended (\<lparr>t_img = i, t_isRetry = isRetry, t_parsed = p, t_candidates = ?cs,
                   t_i = 0, t_lastError = None\<rparr>\<lparr>t_i := k\<rparr>)"
        and st1: "st1 = (set_batoFixing (st\<lparr>processingImages := insert i (processingImages st)\<rparr>) i ''true'')
           \<lparr>requests := requests (set_batoFixing (st\<lparr>processingImages := insert i (processingImages st)\<rparr>) i ''true'') @
              [t_candidates \<lparr>t_img = i, t_isRetry = isRetry, t_parsed = p, t_candidates = ?cs,
                   t_i = 0, t_lastError = None\<rparr> ! k]\<rparr>"
        and sk: "\<forall>j. t_i \<lparr>t_img = i, t_isRetry = isRetry, t_parsed = p, t_candidates = ?cs,
                   t_i = 0, t_lastError = None\<rparr> \<le> j \<and> j < k \<longrightarrow>
               slice3 (t_candidates \<lparr>t_img = i, t_isRetry = isRetry, t_parsed = p, t_candidates = ?cs,
                   t_i = 0, t_lastError = None\<rparr> ! j)
               \<in> failedCache (set_batoFixing (st\<lparr>processingImages := insert i (processingImages st)\<rparr>) i ''true'')"
      define t where "t = \<lparr>t_img = i, t_isRetry = isRetry, t_parsed = p, t_candidates = ?cs,
                   t_i = k, t_lastError = None\<rparr>"
      have s: "s = Suspended t" using a by (simp add: t_def)
      have 1: "requests st1 \<noteq> []" and 2: "last (requests st1) = t_candidates t ! t_i t"
        by (simp_all add: st1 t_def)
      have 3: "\<forall>j<t_i t. slice3 (t_candidates t ! j) \<in> failedCache st1"
        using sk by (simp add: st1 t_def)
      have 4: "\<exists>j<length (t_candidates t). slice3 (t_candidates t ! j) \<notin> failedCache st'"
        using u by (simp add: t_def)
      from drive_abandon_aux[OF d[unfolded s] refl 1 2 3 4]
      show ?thesis by (simp add: t_def)
    next
      assume "s = Ended (GaveUp (t_lastError \<lparr>t_img = i, t_isRetry = isRetry, t_parsed = p,
                   t_candidates = ?cs, t_i = 0, t_lastError = None\<rparr>))"
        and st1: "st1 = on_failure (set_batoFixing (st\<lparr>processingImages := insert i (processingImages st)\<rparr>) i ''true'')
           \<lparr>t_img = i, t_isRetry = isRetry, t_parsed = p, t_candidates = ?cs, t_i = 0, t_lastError = None\<rparr>"
        and al: "\<forall>j. t_i \<lparr>t_img = i, t_isRetry = isRetry, t_parsed = p, t_candidates = ?cs,
                   t_i = 0, t_lastError = None\<rparr> \<le> j \<and>
               j < length (t_candidates \<lparr>t_img = i, t_isRetry = isRetry, t_parsed = p, t_candidates = ?cs,
                   t_i = 0, t_lastError = None\<rparr>) \<longrightarrow>
               slice3 (t_candidates \<lparr>t_img = i, t_isRetry = isRetry, t_parsed = p, t_candidates = ?cs,
                   t_i = 0, t_lastError = None\<rparr> ! j)
               \<in> failedCache (set_batoFixing (st\<lparr>processingImages := insert i (processingImages st)\<rparr>) i ''true'')"
      then have "st' = st1" using d by simp
      then have "failedCache st' = failedCache st" by (simp add: st1)
      then show ?thesis using al u by auto
    qed
  qed
qed

lemma settle_timeout_past_6:
  assumes "6 < t_i t" and "settle st t TimerFired = (st', s)"
  shows "s = Ended (GaveUp (Some Timeout))" and "requests st' = requests st"
    and "failedCache st' = insert (slice3 (t_candidates t ! t_i t)) (failedCache st)"
  using assms by (auto simp: settle_def probeUrl_end_def Let_def)

lemma probeUrl_cached:
  "slice3 u \<in> failedCache st \<Longrightarrow> probeUrl net st u = (Rejected CachedFail, st)"
  by (simp add: probeUrl_def probeUrl_begin_def)

lemma probeUrl_uncached:
  assumes "slice3 u \<notin> failedCache st" and "probeUrl net st u = (r, st')"
  shows "requests st' = requests st @ [u]"
    and "r = Resolved \<longrightarrow> failedCache st' = failedCache st"
    and "\<forall>e. r = Rejected e \<longrightarrow> e \<noteq> CachedFail \<and> failedCache st' = insert (slice3 u) (failedCache st)"
    and "r = Resolved \<longleftrightarrow> (\<exists>w h. net u = OnLoad w h \<and> (1 < w \<or> 1 < h))"
  using assms
  by (auto simp: probeUrl_def probeUrl_begin_def probeUrl_end_def Let_def
      split: net_event.splits if_splits)

text \<open>The failure cache only grows.\<close>

lemma failedCache_apply_event:
  "failedCache (w_state w) \<subseteq> failedCache (w_state (apply_event w e))"
proof -
  have en: "failedCache (w_state (enter w' (st', s))) = failedCache st'" for w' st' s
    by (cases s) (simp_all add: enter_def)
  have fs: "failedCache st \<subseteq> failedCache st'" if "fixImage_start st i r = (st', s)" for st i r st' s
    using fixImage_start_cases[OF that]
  proof (elim disjE conjE exE)
    fix p
    assume l: "loop_from (set_batoFixing (st\<lparr>processingImages := insert i (processingImages st)\<rparr>) i ''true'')
        \<lparr>t_img = i, t_isRetry = r, t_parsed = p, t_candidates = generateCandidates (serverCache st) p,
           t_i = 0, t_lastError = None\<rparr> = (st', s)"
    show ?thesis using loop_from_cases[OF l] by auto
  qed auto
  show ?thesis
  proof (cases e)
    case (Call i r)
    obtain st' s where x: "fixImage_start (w_state w) i r = (st', s)"
      by (cases "fixImage_start (w_state w) i r")
    show ?thesis using Call x fs[OF x] by (simp add: apply_event_def en)
  next
    case (Settled k ev)
    show ?thesis
    proof (cases "k < length (w_tasks w)")
      case False
      then show ?thesis using Settled by (simp add: apply_event_def)
    next
      case True
      obtain st' s where x: "settle (w_state w) (w_tasks w ! k) ev = (st', s)"
        by (cases "settle (w_state w) (w_tasks w ! k) ev")
      show ?thesis
      proof (cases s)
        case (Suspended t')
        then show ?thesis using Settled True x settle_Suspended_eq(5)[OF x[unfolded Suspended]]
          by (auto simp: apply_event_def)
      next
        case (Ended r)
        from settle_Ended_eq[OF x[unfolded Ended]]
        have "failedCache (w_state w) \<subseteq> failedCache st'" by auto
        then show ?thesis using Settled True x Ended by (simp add: apply_event_def)
      qed
    qed
  next
    case (TimerDue k)
    show ?thesis
    proof (cases "k < length (timers (w_state w))")
      case False
      then show ?thesis using TimerDue by (simp add: apply_event_def)
    next
      case True
      define st1 where "st1 = (w_state w)\<lparr>timers := take k (timers (w_state w)) @
                                                  drop (Suc k) (timers (w_state w))\<rparr>"
      define i where "i = snd (timers (w_state w) ! k)"
      obtain st' s where x: "fixImage_start st1 i True = (st', s)"
        by (cases "fixImage_start st1 i True")
      have "failedCache st1 = failedCache (w_state w)" by (simp add: st1_def)
      then show ?thesis using TimerDue True x fs[OF x]
        by (simp add: apply_event_def Let_def st1_def[symmetric] i_def[symmetric] en)
    qed
  next
    case (Page i im)
    then show ?thesis by (simp add: apply_event_def)
  qed
qed


text \<open>The last recorded error is the rejection of the last request.\<close>

lemma probeUrl_end_rejection_of:
  "probeUrl_end st u ev = (r, st') \<Longrightarrow>
     rejection_of ev = (case r of Resolved \<Rightarrow> None | Rejected e \<Rightarrow> Some e)"
  by (auto simp: probeUrl_end_def rejection_of_def Let_def split: net_event.splits if_splits)

lemma drive_last_error_aux:
  "drive net x = (st', GaveUp e) \<Longrightarrow> x = (st, Suspended t) \<Longrightarrow>
   requests st \<noteq> [] \<Longrightarrow> last (requests st) = t_candidates t ! t_i t \<Longrightarrow>
   requests st' \<noteq> [] \<and> e \<noteq> None \<and> e = rejection_of (net (last (requests st'))) \<and>
   length (requests st) \<le> length (requests st')"
proof (induction net x arbitrary: st t rule: drive.induct)
  case (1 net st0 r0)
  then show ?case by simp
next
  case (2 net st0 t0)
  then have [simp]: "st0 = st" "t0 = t" by simp_all
  define ev where "ev = net (t_candidates t ! t_i t)"
  obtain st1 s1 where s: "settle st t ev = (st1, s1)" by (cases "settle st t ev")
  have d: "drive net (st1, s1) = (st', GaveUp e)" using "2.prems"(1) s ev_def by simp
  show ?case
  proof (cases s1)
    case (Ended r1)
    then have e1: "st' = st1" "r1 = GaveUp e" using d by simp_all
    from settle_Ended_eq[OF s[unfolded Ended]] e1
    obtain e' where e': "e = Some e'"
      and p: "probeUrl_end st (t_candidates t ! t_i t) ev =
                 (Rejected e', st\<lparr>failedCache := insert (slice3 (t_candidates t ! t_i t)) (failedCache st)\<rparr>)"
      and st': "st' = on_failure (st\<lparr>failedCache := insert (slice3 (t_candidates t ! t_i t)) (failedCache st)\<rparr>)
                       (t\<lparr>t_lastError := Some e'\<rparr>)"
      by auto
    have rq: "requests st' = requests st" by (subst st') simp
    have "rejection_of ev = Some e'" using probeUrl_end_rejection_of[OF p] by simp
    then show ?thesis using e' rq "2.prems"(3,4) ev_def by simp
  next
    case (Suspended t1)
    note q = settle_Suspended_eq[OF s[unfolded Suspended]]
    have dd: "drive net (settle st0 t0 (net (t_candidates t0 ! t_i t0))) = (st', GaveUp e)"
      using "2.prems"(1) by simp
    have x: "settle st0 t0 (net (t_candidates t0 ! t_i t0)) = (st1, Suspended t1)"
      using s Suspended ev_def by simp
    have r1: "requests st1 \<noteq> []" and r2: "last (requests st1) = t_candidates t1 ! t_i t1"
      using q(6,9) by simp_all
    from "2.IH"[OF dd x r1 r2]
    have "requests st' \<noteq> []" "e \<noteq> None" "e = rejection_of (net (last (requests st')))"
      "length (requests st1) \<le> length (requests st')" by blast+
    moreover have "length (requests st) \<le> length (requests st1)" using q(6) by simp
    ultimately show ?thesis by (intro conjI) simp_all
  qed
qed

lemma fixImage_last_error:
  assumes f: "fixImage net st i isRetry = (st', GaveUp e)"
  shows "(e = None \<and> requests st' = requests st) \<or>
         (e \<noteq> None \<and> requests st' \<noteq> [] \<and> length (requests st) < length (requests st') \<and>
          e = rejection_of (net (last (requests st'))))"
proof -
  obtain st1 s where fs: "fixImage_start st i isRetry = (st1, s)"
    by (cases "fixImage_start st i isRetry")
  have d: "drive net (st1, s) = (st', GaveUp e)" using f fs by (simp add: fixImage_def)
  from fixImage_start_cases[OF fs]
  consider (skip) "s = Ended Skipped" | (noparse) "s = Ended NoParse"
    | (loop) p where "loop_from (set_batoFixing (st\<lparr>processingImages := insert i (processingImages st)\<rparr>) i ''true'')
                  \<lparr>t_img = i, t_isRetry = isRetry, t_parsed = p,
                   t_candidates = generateCandidates (serverCache st) p,
                   t_i = 0, t_lastError = None\<rparr> = (st1, s)"
    by blast
  then show ?thesis
  proof cases
    case skip
    then show ?thesis using d by simp
  next
    case noparse
    then show ?thesis using d by simp
  next
    case loop
    show ?thesis
    proof (cases s)
      case (Ended r1)
      note q = loop_from_Ended_eq[OF loop[unfolded Ended]]
      have "st' = st1" "GaveUp e = r1" using d Ended by simp_all
      then show ?thesis using q by simp
    next
      case (Suspended t')
      note q = loop_from_Suspended_eq[OF loop[unfolded Suspended]]
      have c: "t_candidates t' = generateCandidates (serverCache st) p" by (subst q(2)) simp
      have r: "requests st1 = requests st @ [t_candidates t' ! t_i t']"
        by (subst q(1)) (simp add: c)
      then have 1: "requests st1 \<noteq> []" and 2: "last (requests st1) = t_candidates t' ! t_i t'"
        by simp_all
      from drive_last_error_aux[OF d[unfolded Suspended] refl 1 2]
      have "e \<noteq> None" "requests st' \<noteq> []" "e = rejection_of (net (last (requests st')))"
        "length (requests st1) \<le> length (requests st')" by blast+
      moreover have "length (requests st) < length (requests st1)" using r by simp
      ultimately show ?thesis by (intro disjI2 conjI) simp_all
    qed
  qed
qed

text \<open>What each answer of the network does to a probe whose key is not in the cache.\<close>

lemma probeUrl_outcomes:
  assumes "slice3 u \<notin> failedCache st"
  shows "net u = TimerFired \<Longrightarrow>
           probeUrl net st u =
             (Rejected Timeout,
              st\<lparr>requests := requests st @ [u],
                 failedCache := insert (slice3 u) (failedCache st)\<rparr>)"
    and "net u = OnError \<Longrightarrow>
           probeUrl net st u =
             (Rejected Error,
              st\<lparr>requests := requests st @ [u],
                 failedCache := insert (slice3 u) (failedCache st)\<rparr>)"
    and "net u = OnLoad wd ht \<and> wd \<le> 1 \<and> ht \<le> 1 \<Longrightarrow>
           probeUrl net st u =
             (Rejected Empty,
              st\<lparr>requests := requests st @ [u],
                 failedCache := insert (slice3 u) (failedCache st)\<rparr>)"
    and "net u = OnLoad wd ht \<and> (1 < wd \<or> 1 < ht) \<Longrightarrow>
           probeUrl net st u = (Resolved, st\<lparr>requests := requests st @ [u]\<rparr>)"
  using assms
  by (auto simp: probeUrl_def probeUrl_begin_def probeUrl_end_def Let_def)

section \<open>Properties of the prefixes\<close>


lemma String_num_ne [simp]: "String_num n \<noteq> []"
  by (subst String_num.simps) simp

lemma padStart_index_digits:
  "padStart 2 (CHR ''0'') (String_num n) \<noteq> []"
  "list_all is_digit (padStart 2 (CHR ''0'') (String_num n))"
proof -
  have z: "is_digit (CHR ''0'')" by (simp add: is_digit_def)
  show "padStart 2 (CHR ''0'') (String_num n) \<noteq> []" by (simp add: padStart_def)
  show "list_all is_digit (padStart 2 (CHR ''0'') (String_num n))"
    using z String_num_digits[of n] by (auto simp: padStart_def list_all_iff)
qed

lemma is_letter_kn [simp]: "is_letter (CHR ''k'')" "is_letter (CHR ''n'')"
  by (simp_all add: is_letter_def)

lemma render_url_kn:
  assumes "pf = ''k'' \<or> pf = ''n''"
  shows "take 8 (render_url pf n r t pth) = ''https://''"
    and "host_prefix (render_url pf n r t pth) = pf"
proof -
  define d where "d = padStart 2 (CHR ''0'') (String_num n)"
  obtain c cs where d: "d = c # cs" and c: "is_digit c"
    using padStart_index_digits[of n] by (cases d) (auto simp: d_def)
  have nl: "\<not> is_letter c" using c by (rule digit_not_letter)
  show "take 8 (render_url pf n r t pth) = ''https://''"
    by (simp add: render_url_def)
  have "drop 8 (render_url pf n r t pth) = pf @ c # cs @ ''.'' @ r @ ''.'' @ t @ pth"
    by (simp add: render_url_def d_def[symmetric] d)
  then show "host_prefix (render_url pf n r t pth) = pf"
    using assms nl by (auto simp: host_prefix_def)
qed

lemma add_kn:
  "list_all (\<lambda>c. kn_url (url c)) cs \<Longrightarrow> list_all (\<lambda>c. kn_url (url c)) (add p cs pf n r t pr)"
  by (auto simp: add_def kn_url_def render_url_kn)

lemma foldl_kn:
  assumes "\<And>cs x. list_all (\<lambda>c. kn_url (url c)) cs \<Longrightarrow> list_all (\<lambda>c. kn_url (url c)) (f cs x)"
    and "list_all (\<lambda>c. kn_url (url c)) cs0"
  shows "list_all (\<lambda>c. kn_url (url c)) (foldl f cs0 xs)"
  using assms(2) by (induction xs arbitrary: cs0) (simp_all add: assms(1))

lemma collectCandidates_kn: "list_all (\<lambda>c. kn_url (url c)) (collectCandidates sc p)"
proof -
  define c0 where "c0 = (case sc (serverCache_key p) of
                  None \<Rightarrow> []
                | Some c \<Rightarrow> add p [] (c_prefix c) (c_number c) (c_root c) (c_tld c) 0)"
  define c1 where "c1 = (if prefix p = ''k'' then add p c0 ''n'' (number p) (root p) (tld p) 1
                else add p c0 ''k'' (number p) (root p) (tld p) 1)"
  define c2 where "c2 = foldl (\<lambda>cs i. if i \<noteq> number p then add p cs ''n'' i (root p) (tld p) 2 else cs)
                 c1 [0..<Suc MAX_SERVER_NUM]"
  have 0: "list_all (\<lambda>c. kn_url (url c)) c0"
    unfolding c0_def by (cases "sc (serverCache_key p)") (simp_all add: add_kn)
  have 1: "list_all (\<lambda>c. kn_url (url c)) c1"
    unfolding c1_def using 0 by (simp add: add_kn)
  have 2: "list_all (\<lambda>c. kn_url (url c)) c2"
    unfolding c2_def by (rule foldl_kn) (simp_all add: add_kn 1)
  have "list_all (\<lambda>c. kn_url (url c))
      (foldl (\<lambda>cs fr. if length (split_str (CHR ''.'') fr) = 2 \<and> split_str (CHR ''.'') fr ! 0 \<noteq> root p
                         then add p cs ''n'' (number p) (split_str (CHR ''.'') fr ! 0)
                                (split_str (CHR ''.'') fr ! 1) 4
                         else cs) c2 FALLBACK_ROOTS)"
    by (rule foldl_kn) (simp_all add: add_kn 2)
  then show ?thesis
    unfolding collectCandidates_def Let_def c2_def c1_def c0_def .
qed

lemma generateCandidates_subset:
  "set (generateCandidates sc p) \<subseteq> url ` set (collectCandidates sc p)"
  using set_take_subset[of MAX_ATTEMPTS "Set_from [] (map url (sort_key priority (collectCandidates sc p)))"]
  by (simp add: generateCandidates_def set_Set_from)

lemma generateCandidates_kn: "u \<in> set (generateCandidates sc p) \<Longrightarrow> kn_url u"
  using generateCandidates_subset[of sc p] collectCandidates_kn[of sc p]
  by (auto simp: list_all_iff)

lemma preemptiveFix_src:
  assumes "preemptiveFix sc im = (True, im')"
  shows "\<exists>p. parseSubdomain (src im) = Some p \<and> prefix p = ''k'' \<and>
           src im' = (case sc (serverCache_key p) of
                        None \<Rightarrow> render_url ''n'' (number p) (root p) (tld p) (path p)
                      | Some c \<Rightarrow> render_url (if c_prefix c \<noteq> ''k'' \<and> c_prefix c \<noteq> ''n'' then ''n''
                                               else c_prefix c)
                                    (c_number c) (c_root c) (c_tld c) (path p))"
  using assms
  by (auto simp: preemptiveFix_def Let_def split: option.splits if_splits)

lemma preemptiveFix_kn:
  assumes "preemptiveFix sc im = (True, im')"
  shows "kn_url (src im')"
proof -
  from preemptiveFix_src[OF assms] obtain p where
    s: "src im' = (case sc (serverCache_key p) of
                        None \<Rightarrow> render_url ''n'' (number p) (root p) (tld p) (path p)
                      | Some c \<Rightarrow> render_url (if c_prefix c \<noteq> ''k'' \<and> c_prefix c \<noteq> ''n'' then ''n''
                                               else c_prefix c)
                                    (c_number c) (c_root c) (c_tld c) (path p))"
    by blast
  show ?thesis unfolding s kn_url_def
    by (cases "sc (serverCache_key p)") (auto simp: render_url_kn)
qed

section \<open>The claims\<close>

text \<open>
  C1. For every parsed address and every state of the success cache, the list returned by
  \<open>generateCandidates\<close> has at most \<open>MAX_ATTEMPTS\<close> entries, holds no string twice, holds
  only URLs of the array \<open>candidates\<close>, and is ordered by priority class: the classes
  never decrease along the list. The cut to \<open>MAX_ATTEMPTS\<close> comes after the sort, so
  every URL that was generated and dropped has a class at least as large as every URL
  that was kept.
\<close>

theorem generateCandidates_bounded_distinct_ordered:
  "length (generateCandidates sc p) \<le> MAX_ATTEMPTS \<and>
   distinct (generateCandidates sc p) \<and>
   set (generateCandidates sc p) \<subseteq> url ` set (collectCandidates sc p) \<and>
   sorted (map (class_of (collectCandidates sc p)) (generateCandidates sc p)) \<and>
   (\<forall>u \<in> url ` set (collectCandidates sc p) - set (generateCandidates sc p).
      \<forall>v \<in> set (generateCandidates sc p).
        class_of (collectCandidates sc p) v \<le> class_of (collectCandidates sc p) u)"
proof -
  let ?cs = "collectCandidates sc p"
  let ?full = "Set_from [] (map url (sort_key priority ?cs))"
  have g: "generateCandidates sc p = take MAX_ATTEMPTS ?full"
    by (simp add: generateCandidates_def)
  have sf: "sorted (map (class_of ?cs) ?full)" by (rule generateCandidates_sorted_full)
  have setf: "set ?full = url ` set ?cs" by (simp add: set_Set_from)
  have df: "distinct ?full" by (rule distinct_Set_from)
  have 1: "length (generateCandidates sc p) \<le> MAX_ATTEMPTS" by (simp add: g)
  have 2: "distinct (generateCandidates sc p)" using df by (simp add: g)
  have 3: "set (generateCandidates sc p) \<subseteq> url ` set ?cs"
    using set_take_subset[of MAX_ATTEMPTS ?full] setf by (simp add: g)
  have split: "map (class_of ?cs) ?full =
      map (class_of ?cs) (take MAX_ATTEMPTS ?full) @ map (class_of ?cs) (drop MAX_ATTEMPTS ?full)"
    by (metis append_take_drop_id map_append)
  have 4: "sorted (map (class_of ?cs) (generateCandidates sc p))"
    using sf split by (metis g sorted_append)
  have 5: "\<forall>u \<in> url ` set ?cs - set (generateCandidates sc p).
      \<forall>v \<in> set (generateCandidates sc p). class_of ?cs v \<le> class_of ?cs u"
  proof (intro ballI)
    fix u v
    assume u: "u \<in> url ` set ?cs - set (generateCandidates sc p)"
      and v: "v \<in> set (generateCandidates sc p)"
    have "set ?full = set (take MAX_ATTEMPTS ?full) \<union> set (drop MAX_ATTEMPTS ?full)"
      by (metis append_take_drop_id set_append)
    then have "u \<in> set (drop MAX_ATTEMPTS ?full)" using u setf g by auto
    moreover have "v \<in> set (take MAX_ATTEMPTS ?full)" using v g by simp
    ultimately show "class_of ?cs v \<le> class_of ?cs u"
      using sf split by (auto simp: sorted_append)
  qed
  show ?thesis using 1 2 3 4 5 by blast
qed

theorem generateCandidates_bounded_distinct_ordered_witness:
  "length (generateCandidates Map.empty
      \<lparr>prefix = ''k'', number = 3, root = ''mbdny'', tld = ''org'', path = ''/a/b/c/1.jpg''\<rparr>) \<le> MAX_ATTEMPTS \<and>
   ''https://n14.mbdny.org/a/b/c/1.jpg'' \<in> set (generateCandidates Map.empty
      \<lparr>prefix = ''k'', number = 3, root = ''mbdny'', tld = ''org'', path = ''/a/b/c/1.jpg''\<rparr>) \<and>
   ''https://n03.mbrtz.org/a/b/c/1.jpg'' \<notin> set (generateCandidates Map.empty
      \<lparr>prefix = ''k'', number = 3, root = ''mbdny'', tld = ''org'', path = ''/a/b/c/1.jpg''\<rparr>) \<and>
   class_of (collectCandidates Map.empty
      \<lparr>prefix = ''k'', number = 3, root = ''mbdny'', tld = ''org'', path = ''/a/b/c/1.jpg''\<rparr>)
      ''https://n14.mbdny.org/a/b/c/1.jpg''
   \<le> class_of (collectCandidates Map.empty
      \<lparr>prefix = ''k'', number = 3, root = ''mbdny'', tld = ''org'', path = ''/a/b/c/1.jpg''\<rparr>)
      ''https://n03.mbrtz.org/a/b/c/1.jpg''"
proof -
  define p where "p = \<lparr>prefix = ''k'', number = 3, root = ''mbdny'', tld = ''org'', path = ''/a/b/c/1.jpg''\<rparr>"
  define kept where "kept = ''https://n14.mbdny.org/a/b/c/1.jpg''"
  define dropped where "dropped = ''https://n03.mbrtz.org/a/b/c/1.jpg''"
  define sc where "sc = (Map.empty :: string \<rightharpoonup> cached)"
  have v: "kept \<in> set (generateCandidates sc p)"
    unfolding kept_def p_def sc_def by code_simp
  have n: "dropped \<notin> set (generateCandidates sc p)"
    unfolding dropped_def p_def sc_def by code_simp
  have g: "dropped \<in> url ` set (collectCandidates sc p)"
    unfolding dropped_def p_def sc_def by code_simp
  have u: "dropped \<in> url ` set (collectCandidates sc p) - set (generateCandidates sc p)"
    using g n by (rule DiffI)
  note t = generateCandidates_bounded_distinct_ordered[of sc p]
  have 1: "length (generateCandidates sc p) \<le> MAX_ATTEMPTS" using t by (rule conjunct1)
  have "\<forall>u \<in> url ` set (collectCandidates sc p) - set (generateCandidates sc p).
      \<forall>v \<in> set (generateCandidates sc p).
        class_of (collectCandidates sc p) v \<le> class_of (collectCandidates sc p) u"
    using t by (elim conjE)
  then have 2: "class_of (collectCandidates sc p) kept \<le> class_of (collectCandidates sc p) dropped"
    using u v by blast
  show ?thesis
    using 1 v n 2 unfolding p_def kept_def dropped_def sc_def by blast
qed

text \<open>
  C5. For every address string that \<open>parseSubdomain\<close> accepts, rendering the parsed
  fields gives an address that parses back to the same fields, so parsing inverts the
  rendering; and the rendered address is the canonical form of the original: the scheme
  \<open>https\<close>, the host in lower case, the index written anew with at least two digits,
  and the path as it was. (\<open>parseSubdomain\<close> is a function: equal inputs give equal
  results.)
\<close>

theorem parse_inverts_render:
  assumes "parseSubdomain adr = Some a"
  shows "parseSubdomain (render_parsed a) = Some a \<and>
         (\<exists>m1 m2 m3 m4 m5. matches_SUBDOMAIN_RE adr m1 m2 m3 m4 m5 \<and>
            render_parsed a =
              ''https://'' @ toLowerCase m1 @ padStart 2 (CHR ''0'') (String_num (parseInt m2)) @
              ''.'' @ toLowerCase m3 @ ''.'' @ toLowerCase m4 @ m5)"
  using assms by (rule parse_render_inverse_aux)

theorem parse_inverts_render_witness:
  "parseSubdomain ''HTTP://K3.MBDNY.ORG/a/1.jpg'' =
     Some \<lparr>prefix = ''k'', number = 3, root = ''mbdny'', tld = ''org'', path = ''/a/1.jpg''\<rparr> \<and>
   render_parsed \<lparr>prefix = ''k'', number = 3, root = ''mbdny'', tld = ''org'', path = ''/a/1.jpg''\<rparr> =
     ''https://k03.mbdny.org/a/1.jpg'' \<and>
   parseSubdomain ''https://k03.mbdny.org/a/1.jpg'' =
     Some \<lparr>prefix = ''k'', number = 3, root = ''mbdny'', tld = ''org'', path = ''/a/1.jpg''\<rparr>"
proof -
  let ?a = "\<lparr>prefix = ''k'', number = 3, root = ''mbdny'', tld = ''org'', path = ''/a/1.jpg''\<rparr>"
  have h: "parseSubdomain ''HTTP://K3.MBDNY.ORG/a/1.jpg'' = Some ?a" by code_simp
  have r: "render_parsed ?a = ''https://k03.mbdny.org/a/1.jpg''" by code_simp
  from parse_inverts_render[OF h] have "parseSubdomain (render_parsed ?a) = Some ?a" by blast
  then show ?thesis using h r by simp
qed

text \<open>
  C6, as the code has it. \<open>parseSubdomain\<close> returns an address exactly for the strings of
  the form scheme, \<open>://\<close>, letters, an index of one to three digits, a dot, a root of
  letters, digits and hyphens, a dot, one of \<open>org\<close>, \<open>net\<close> and \<open>to\<close>, and a path that
  starts with \<open>/\<close> and holds no line terminator, all read without regard to case; the
  fields are the groups of that one match. Every other string yields \<open>None\<close>.
\<close>

theorem parseSubdomain_accepts_exactly:
  "parseSubdomain adr = Some a \<longleftrightarrow>
     (\<exists>m1 m2 m3 m4 m5. matches_SUBDOMAIN_RE adr m1 m2 m3 m4 m5 \<and>
        a = \<lparr>prefix = toLowerCase m1, number = parseInt m2, root = toLowerCase m3,
              tld = toLowerCase m4, path = m5\<rparr>)"
  by (rule parseSubdomain_Some_iff)

theorem parseSubdomain_accepts_exactly_witness:
  "\<exists>m1 m2 m3 m4 m5. matches_SUBDOMAIN_RE ''http://n127.mb-dny.to/x'' m1 m2 m3 m4 m5 \<and>
     \<lparr>prefix = ''n'', number = 127, root = ''mb-dny'', tld = ''to'', path = ''/x''\<rparr> =
     \<lparr>prefix = toLowerCase m1, number = parseInt m2, root = toLowerCase m3,
        tld = toLowerCase m4, path = m5\<rparr>"
proof -
  have "parseSubdomain ''http://n127.mb-dny.to/x'' =
      Some \<lparr>prefix = ''n'', number = 127, root = ''mb-dny'', tld = ''to'', path = ''/x''\<rparr>"
    by code_simp
  then show ?thesis unfolding parseSubdomain_accepts_exactly .
qed

text \<open>
  C6, as the claim states it, fails: an index of a single digit is accepted.
\<close>

theorem parseSubdomain_one_digit_counterexample:
  "parseSubdomain ''https://k3.mbdny.org/a/1.jpg'' =
     Some \<lparr>prefix = ''k'', number = 3, root = ''mbdny'', tld = ''org'', path = ''/a/1.jpg''\<rparr>"
  by code_simp


text \<open>
  C10. Every URL that \<open>generateCandidates\<close> returns starts with \<open>https://\<close> followed
  by the prefix \<open>k\<close> or \<open>n\<close> and then the index: whatever the success cache holds, a
  candidate with another prefix is never pushed. \<open>preemptiveFix\<close>, when it swaps,
  writes an address of the same kind, and an entry of the cache whose prefix is neither
  \<open>k\<close> nor \<open>n\<close> is applied with the prefix \<open>n\<close>.
\<close>

theorem candidates_and_swaps_are_k_or_n:
  "(\<forall>u\<in>set (generateCandidates sc p).
      take 8 u = ''https://'' \<and> (host_prefix u = ''k'' \<or> host_prefix u = ''n'')) \<and>
   (\<forall>im'. preemptiveFix sc im = (True, im') \<longrightarrow>
      take 8 (src im') = ''https://'' \<and>
      (host_prefix (src im') = ''k'' \<or> host_prefix (src im') = ''n'') \<and>
      (\<exists>q. parseSubdomain (src im) = Some q \<and> prefix q = ''k'' \<and>
           (\<forall>c. sc (serverCache_key q) = Some c \<and> c_prefix c \<noteq> ''k'' \<and> c_prefix c \<noteq> ''n'' \<longrightarrow>
                src im' = render_url ''n'' (c_number c) (c_root c) (c_tld c) (path q))))"
proof (intro conjI ballI allI impI)
  fix u assume "u \<in> set (generateCandidates sc p)"
  then have "kn_url u" by (rule generateCandidates_kn)
  then show "take 8 u = ''https://''" "host_prefix u = ''k'' \<or> host_prefix u = ''n''"
    by (simp_all add: kn_url_def)
next
  fix im' assume a: "preemptiveFix sc im = (True, im')"
  then have "kn_url (src im')" by (rule preemptiveFix_kn)
  then show "take 8 (src im') = ''https://''"
    "host_prefix (src im') = ''k'' \<or> host_prefix (src im') = ''n''"
    by (simp_all add: kn_url_def)
  from preemptiveFix_src[OF a] obtain q where q: "parseSubdomain (src im) = Some q" "prefix q = ''k''"
    "src im' = (case sc (serverCache_key q) of
                        None \<Rightarrow> render_url ''n'' (number q) (root q) (tld q) (path q)
                      | Some c \<Rightarrow> render_url (if c_prefix c \<noteq> ''k'' \<and> c_prefix c \<noteq> ''n'' then ''n''
                                               else c_prefix c)
                                    (c_number c) (c_root c) (c_tld c) (path q))"
    by blast
  show "\<exists>q. parseSubdomain (src im) = Some q \<and> prefix q = ''k'' \<and>
           (\<forall>c. sc (serverCache_key q) = Some c \<and> c_prefix c \<noteq> ''k'' \<and> c_prefix c \<noteq> ''n'' \<longrightarrow>
                src im' = render_url ''n'' (c_number c) (c_root c) (c_tld c) (path q))"
    using q by (intro exI[of _ q]) auto
qed

theorem candidates_and_swaps_are_k_or_n_witness:
  "hd (generateCandidates
         (Map.empty(''mbdny-/a/b'' \<mapsto> \<lparr>c_prefix = ''x'', c_number = 7, c_root = ''mbdny'', c_tld = ''org''\<rparr>))
         \<lparr>prefix = ''k'', number = 3, root = ''mbdny'', tld = ''org'', path = ''/a/b/c/1.jpg''\<rparr>)
     = ''https://n03.mbdny.org/a/b/c/1.jpg'' \<and>
   host_prefix ''https://n03.mbdny.org/a/b/c/1.jpg'' = ''n'' \<and>
   src (snd (preemptiveFix
         (Map.empty(''mbdny-/a/b'' \<mapsto> \<lparr>c_prefix = ''x'', c_number = 7, c_root = ''mbdny'', c_tld = ''org''\<rparr>))
         (broken_img ''https://k03.mbdny.org/a/b/c/1.jpg'')))
     = ''https://n07.mbdny.org/a/b/c/1.jpg''"
proof -
  define c where "c = \<lparr>c_prefix = ''x'', c_number = 7, c_root = ''mbdny'', c_tld = ''org''\<rparr>"
  define sc where "sc = Map.empty(''mbdny-/a/b'' \<mapsto> c)"
  define p where "p = \<lparr>prefix = ''k'', number = 3, root = ''mbdny'', tld = ''org'', path = ''/a/b/c/1.jpg''\<rparr>"
  define im where "im = broken_img ''https://k03.mbdny.org/a/b/c/1.jpg''"
  define u where "u = hd (generateCandidates sc p)"
  define im' where "im' = snd (preemptiveFix sc im)"
  note t = candidates_and_swaps_are_k_or_n[of sc p im]
  have g: "generateCandidates sc p \<noteq> []"
    unfolding sc_def p_def c_def by code_simp
  have h: "u = ''https://n03.mbdny.org/a/b/c/1.jpg''"
    unfolding u_def sc_def p_def c_def by code_simp
  have "u \<in> set (generateCandidates sc p)" unfolding u_def using g by (rule hd_in_set)
  then have 1: "host_prefix u = ''k'' \<or> host_prefix u = ''n''"
    using t by blast
  have "host_prefix u \<noteq> ''k''" unfolding h by code_simp
  then have "host_prefix u = ''n''" using 1 by blast
  then have 2: "host_prefix ''https://n03.mbdny.org/a/b/c/1.jpg'' = ''n''" unfolding h .
  have f: "fst (preemptiveFix sc im) = True"
    unfolding sc_def im_def c_def by code_simp
  have e: "preemptiveFix sc im = (True, im')"
    unfolding im'_def f[symmetric] by (rule prod.collapse[symmetric])
  from t e
  obtain q where q: "parseSubdomain (src im) = Some q"
    and qc: "\<forall>c. sc (serverCache_key q) = Some c \<and> c_prefix c \<noteq> ''k'' \<and> c_prefix c \<noteq> ''n'' \<longrightarrow>
                src im' = render_url ''n'' (c_number c) (c_root c) (c_tld c) (path q)"
    by blast
  have "parseSubdomain (src im) = Some p" unfolding im_def p_def by code_simp
  then have qp: "q = p" using q by simp
  have k: "sc (serverCache_key p) = Some c" unfolding sc_def p_def c_def by code_simp
  have cx: "c_prefix c \<noteq> ''k''" "c_prefix c \<noteq> ''n''" unfolding c_def by code_simp+
  have "src im' = render_url ''n'' (c_number c) (c_root c) (c_tld c) (path p)"
    using qc k cx unfolding qp by blast
  moreover have "render_url ''n'' (c_number c) (c_root c) (c_tld c) (path p) = ''https://n07.mbdny.org/a/b/c/1.jpg''"
    unfolding c_def p_def by code_simp
  ultimately have 3: "src im' = ''https://n07.mbdny.org/a/b/c/1.jpg''" by (rule trans)
  show ?thesis
    using h 2 3 unfolding u_def im'_def sc_def p_def im_def c_def by blast
qed

text \<open>
  C7, as the code has it. With an empty success cache the current script answers
  \<open>https://k03.mbdny.org/a/b/c/1.jpg\<close> with the \<open>n03\<close> address first and then with
  the index sweep on \<open>n\<close> alone: no other prefix letter is tried, and the mirror roots,
  though generated, fall beyond the fifteenth place. The oldest script answers in the
  order of the claim: \<open>n03\<close>, the other prefix letters at index 03, the indices 00 to
  05 on \<open>k\<close>, and the mirror roots.
\<close>

theorem generateCandidates_example:
  "map_option (generateCandidates Map.empty) (parseSubdomain ''https://k03.mbdny.org/a/b/c/1.jpg'') =
     Some [''https://n03.mbdny.org/a/b/c/1.jpg'',
        ''https://n00.mbdny.org/a/b/c/1.jpg'',
        ''https://n01.mbdny.org/a/b/c/1.jpg'',
        ''https://n02.mbdny.org/a/b/c/1.jpg'',
        ''https://n04.mbdny.org/a/b/c/1.jpg'',
        ''https://n05.mbdny.org/a/b/c/1.jpg'',
        ''https://n06.mbdny.org/a/b/c/1.jpg'',
        ''https://n07.mbdny.org/a/b/c/1.jpg'',
        ''https://n08.mbdny.org/a/b/c/1.jpg'',
        ''https://n09.mbdny.org/a/b/c/1.jpg'',
        ''https://n10.mbdny.org/a/b/c/1.jpg'',
        ''https://n11.mbdny.org/a/b/c/1.jpg'',
        ''https://n12.mbdny.org/a/b/c/1.jpg'',
        ''https://n13.mbdny.org/a/b/c/1.jpg'',
        ''https://n14.mbdny.org/a/b/c/1.jpg''] \<and>
   map_option (generateCandidates_v4 Map.empty) (parseSubdomain ''https://k03.mbdny.org/a/b/c/1.jpg'') =
     Some [''https://n03.mbdny.org/a/b/c/1.jpg'',
        ''https://x03.mbdny.org/a/b/c/1.jpg'',
        ''https://t03.mbdny.org/a/b/c/1.jpg'',
        ''https://s03.mbdny.org/a/b/c/1.jpg'',
        ''https://w03.mbdny.org/a/b/c/1.jpg'',
        ''https://m03.mbdny.org/a/b/c/1.jpg'',
        ''https://c03.mbdny.org/a/b/c/1.jpg'',
        ''https://u03.mbdny.org/a/b/c/1.jpg'',
        ''https://k00.mbdny.org/a/b/c/1.jpg'',
        ''https://k01.mbdny.org/a/b/c/1.jpg'',
        ''https://k02.mbdny.org/a/b/c/1.jpg'',
        ''https://k04.mbdny.org/a/b/c/1.jpg'',
        ''https://k05.mbdny.org/a/b/c/1.jpg'',
        ''https://k03.mbrtz.org/a/b/c/1.jpg'',
        ''https://n03.mbrtz.org/a/b/c/1.jpg'',
        ''https://k03.bato.to/a/b/c/1.jpg'',
        ''https://n03.bato.to/a/b/c/1.jpg'',
        ''https://k03.mbwbm.org/a/b/c/1.jpg'',
        ''https://n03.mbwbm.org/a/b/c/1.jpg'',
        ''https://k03.mbznp.org/a/b/c/1.jpg'',
        ''https://n03.mbznp.org/a/b/c/1.jpg'',
        ''https://k03.mbqgu.org/a/b/c/1.jpg'',
        ''https://n03.mbqgu.org/a/b/c/1.jpg'',
        ''https://k03.mpfip.org/a/b/c/1.jpg'',
        ''https://n03.mpfip.org/a/b/c/1.jpg'',
        ''https://k03.mpizz.org/a/b/c/1.jpg'',
        ''https://n03.mpizz.org/a/b/c/1.jpg'',
        ''https://k03.mpmok.org/a/b/c/1.jpg'',
        ''https://n03.mpmok.org/a/b/c/1.jpg'',
        ''https://k03.mpqom.org/a/b/c/1.jpg'']"
  by code_simp

theorem generateCandidates_example_witness:
  "map_option hd (map_option (generateCandidates Map.empty)
      (parseSubdomain ''https://k03.mbdny.org/a/b/c/1.jpg'')) = Some ''https://n03.mbdny.org/a/b/c/1.jpg'' \<and>
   map_option length (map_option (generateCandidates_v4 Map.empty)
      (parseSubdomain ''https://k03.mbdny.org/a/b/c/1.jpg'')) = Some 30"
  unfolding generateCandidates_example[THEN conjunct1] generateCandidates_example[THEN conjunct2]
  by simp

text \<open>
  C7, as the claim states it, fails for the current script: the entry after the \<open>n03\<close>
  address is an index sweep, and neither a variant with another prefix letter nor a
  mirror root is in the list.
\<close>

theorem generateCandidates_example_counterexample:
  "map_option (\<lambda>cs. cs ! 1) (map_option (generateCandidates Map.empty)
      (parseSubdomain ''https://k03.mbdny.org/a/b/c/1.jpg'')) = Some ''https://n00.mbdny.org/a/b/c/1.jpg'' \<and>
   map_option (list_all (\<lambda>u. host_prefix u = ''n'' \<and> take 14 (drop 11 u) = ''.mbdny.org/a/b''))
     (map_option (generateCandidates Map.empty)
        (parseSubdomain ''https://k03.mbdny.org/a/b/c/1.jpg'')) = Some True"
  by code_simp


text \<open>
  C4. \<open>probeUrl\<close> asks the failure cache first: when the key of the URL (scheme and
  host) is in it, the promise is rejected with \<open>cached-fail\<close> and nothing changes, no
  request goes out and the cache is as it was. Otherwise the request goes out, and every
  rejection (timeout, error or empty image) puts the key into the cache. Nothing takes a
  key out: not \<open>probeUrl\<close>, and no step of the page. With the key not in the cache,
  the timer that fires first rejects with \<open>timeout\<close>, \<open>onerror\<close> rejects with \<open>error\<close>,
  and an image of at most one by one pixel rejects with \<open>empty\<close>, each with the key put
  into the cache and nothing else changed but the request; a larger image resolves and
  leaves the cache as it was.
\<close>

theorem probeUrl_failure_cache:
  "(slice3 u \<in> failedCache st \<longrightarrow> probeUrl net st u = (Rejected CachedFail, st)) \<and>
   (slice3 u \<notin> failedCache st \<longrightarrow>
      requests (snd (probeUrl net st u)) = requests st @ [u] \<and>
      (\<forall>e. fst (probeUrl net st u) = Rejected e \<longrightarrow>
           e \<noteq> CachedFail \<and>
           failedCache (snd (probeUrl net st u)) = insert (slice3 u) (failedCache st))) \<and>
   failedCache st \<subseteq> failedCache (snd (probeUrl net st u)) \<and>
   failedCache (w_state w) \<subseteq> failedCache (w_state (apply_event w ev)) \<and>
   (slice3 u \<notin> failedCache st \<longrightarrow>
      (net u = TimerFired \<longrightarrow>
         probeUrl net st u =
           (Rejected Timeout,
            st\<lparr>requests := requests st @ [u],
               failedCache := insert (slice3 u) (failedCache st)\<rparr>)) \<and>
      (net u = OnError \<longrightarrow>
         probeUrl net st u =
           (Rejected Error,
            st\<lparr>requests := requests st @ [u],
               failedCache := insert (slice3 u) (failedCache st)\<rparr>)) \<and>
      (\<forall>wd ht. net u = OnLoad wd ht \<and> wd \<le> 1 \<and> ht \<le> 1 \<longrightarrow>
         probeUrl net st u =
           (Rejected Empty,
            st\<lparr>requests := requests st @ [u],
               failedCache := insert (slice3 u) (failedCache st)\<rparr>)) \<and>
      (\<forall>wd ht. net u = OnLoad wd ht \<and> (1 < wd \<or> 1 < ht) \<longrightarrow>
         probeUrl net st u = (Resolved, st\<lparr>requests := requests st @ [u]\<rparr>)))"
proof (intro conjI impI)
  assume "slice3 u \<in> failedCache st"
  then show "probeUrl net st u = (Rejected CachedFail, st)" by (rule probeUrl_cached)
next
  assume n: "slice3 u \<notin> failedCache st"
  note q = probeUrl_outcomes[OF n, of net]
  show "\<forall>wd ht. net u = OnLoad wd ht \<and> wd \<le> 1 \<and> ht \<le> 1 \<longrightarrow>
         probeUrl net st u =
           (Rejected Empty,
            st\<lparr>requests := requests st @ [u],
               failedCache := insert (slice3 u) (failedCache st)\<rparr>)"
    using q(3) by blast
  show "\<forall>wd ht. net u = OnLoad wd ht \<and> (1 < wd \<or> 1 < ht) \<longrightarrow>
         probeUrl net st u = (Resolved, st\<lparr>requests := requests st @ [u]\<rparr>)"
    using q(4) by blast
  {
    assume "net u = TimerFired"
    then show "probeUrl net st u =
           (Rejected Timeout,
            st\<lparr>requests := requests st @ [u],
               failedCache := insert (slice3 u) (failedCache st)\<rparr>)"
      by (rule q(1))
  next
    assume "net u = OnError"
    then show "probeUrl net st u =
           (Rejected Error,
            st\<lparr>requests := requests st @ [u],
               failedCache := insert (slice3 u) (failedCache st)\<rparr>)"
      by (rule q(2))
  }
next
  assume n: "slice3 u \<notin> failedCache st"
  note q = probeUrl_uncached[OF n prod.collapse[symmetric], of net]
  show "requests (snd (probeUrl net st u)) = requests st @ [u]" by (rule q(1))
  show "\<forall>e. fst (probeUrl net st u) = Rejected e \<longrightarrow>
           e \<noteq> CachedFail \<and>
           failedCache (snd (probeUrl net st u)) = insert (slice3 u) (failedCache st)"
    by (rule q(3))
next
  show "failedCache st \<subseteq> failedCache (snd (probeUrl net st u))"
  proof (cases "slice3 u \<in> failedCache st")
    case True
    then show ?thesis by (simp add: probeUrl_cached)
  next
    case False
    note q = probeUrl_uncached[OF False prod.collapse[symmetric], of net]
    show ?thesis using q(2,3) by (cases "fst (probeUrl net st u)") auto
  qed
next
  show "failedCache (w_state w) \<subseteq> failedCache (w_state (apply_event w ev))"
    by (rule failedCache_apply_event)
qed

theorem probeUrl_failure_cache_witness:
  "slice3 ''https://n03.mbdny.org/a/b/c/1.jpg'' = ''https://n03.mbdny.org'' \<and>
   fst (probeUrl (\<lambda>u. OnError)
          ((w_state (initial (\<lambda>i. broken_img [])))\<lparr>failedCache := {''https://n03.mbdny.org''}\<rparr>)
          ''https://n03.mbdny.org/a/b/c/1.jpg'') = Rejected CachedFail \<and>
   requests (snd (probeUrl (\<lambda>u. OnError)
          ((w_state (initial (\<lambda>i. broken_img [])))\<lparr>failedCache := {''https://n03.mbdny.org''}\<rparr>)
          ''https://n03.mbdny.org/a/b/c/1.jpg'')) = [] \<and>
   failedCache (snd (probeUrl (\<lambda>u. OnLoad 1 1) (w_state (initial (\<lambda>i. broken_img [])))
          ''https://n03.mbdny.org/a/b/c/1.jpg'')) = {''https://n03.mbdny.org''} \<and>
   requests (snd (probeUrl (\<lambda>u. OnLoad 1 1) (w_state (initial (\<lambda>i. broken_img [])))
          ''https://n03.mbdny.org/a/b/c/1.jpg'')) = [''https://n03.mbdny.org/a/b/c/1.jpg''] \<and>
   fst (probeUrl (\<lambda>u. TimerFired) (w_state (initial (\<lambda>i. broken_img [])))
          ''https://n03.mbdny.org/a/b/c/1.jpg'') = Rejected Timeout \<and>
   failedCache (snd (probeUrl (\<lambda>u. TimerFired) (w_state (initial (\<lambda>i. broken_img [])))
          ''https://n03.mbdny.org/a/b/c/1.jpg'')) = {''https://n03.mbdny.org''}"
proof -
  define net3 where "net3 = (\<lambda>u::string. TimerFired)"
  define u where "u = ''https://n03.mbdny.org/a/b/c/1.jpg''"
  define k where "k = ''https://n03.mbdny.org''"
  define st0 where "st0 = w_state (initial (\<lambda>i. broken_img []))"
  define st1 where "st1 = st0\<lparr>failedCache := {k}\<rparr>"
  define net1 where "net1 = (\<lambda>u::string. OnError)"
  define net2 where "net2 = (\<lambda>u::string. OnLoad 1 1)"
  have s: "slice3 u = k" unfolding u_def k_def by code_simp
  have f0: "failedCache st0 = {}" and r0: "requests st0 = []"
    unfolding st0_def by (simp_all add: initial_def)
  have f1: "failedCache st1 = {k}" and r1: "requests st1 = []"
    unfolding st1_def using r0 by simp_all
  have in1: "slice3 u \<in> failedCache st1" unfolding s f1 by simp
  have out0: "slice3 u \<notin> failedCache st0" unfolding f0 by simp
  from probeUrl_failure_cache[where u = u and st = st1 and net = net1] in1
  have a: "probeUrl net1 st1 u = (Rejected CachedFail, st1)" by blast
  have e: "fst (probeUrl net2 st0 u) = Rejected Empty"
    unfolding net2_def st0_def u_def by code_simp
  from probeUrl_failure_cache[where u = u and st = st0 and net = net2] out0 e
  have b: "requests (snd (probeUrl net2 st0 u)) = requests st0 @ [u]"
    and c: "failedCache (snd (probeUrl net2 st0 u)) = insert (slice3 u) (failedCache st0)"
    by blast+
  have 1: "fst (probeUrl net1 st1 u) = Rejected CachedFail" unfolding a by simp
  have 2: "requests (snd (probeUrl net1 st1 u)) = []" unfolding a using r1 by simp
  have 3: "failedCache (snd (probeUrl net2 st0 u)) = {k}" unfolding c s f0 by simp
  have 4: "requests (snd (probeUrl net2 st0 u)) = [u]" unfolding b r0 by simp
  have tf: "net3 u = TimerFired" unfolding net3_def by simp
  from probeUrl_failure_cache[where u = u and st = st0 and net = net3] out0 tf
  have d: "probeUrl net3 st0 u =
      (Rejected Timeout,
       st0\<lparr>requests := requests st0 @ [u], failedCache := insert (slice3 u) (failedCache st0)\<rparr>)"
    by blast
  have 5: "fst (probeUrl net3 st0 u) = Rejected Timeout" unfolding d by simp
  have 6: "failedCache (snd (probeUrl net3 st0 u)) = {k}" unfolding d s f0 by simp
  have "slice3 u = k \<and> fst (probeUrl net1 st1 u) = Rejected CachedFail \<and>
      requests (snd (probeUrl net1 st1 u)) = [] \<and>
      failedCache (snd (probeUrl net2 st0 u)) = {k} \<and>
      requests (snd (probeUrl net2 st0 u)) = [u] \<and>
      fst (probeUrl net3 st0 u) = Rejected Timeout \<and>
      failedCache (snd (probeUrl net3 st0 u)) = {k}"
    using s 1 2 3 4 5 6 by (intro conjI)
  then show ?thesis
    unfolding u_def k_def st1_def st0_def net1_def net2_def net3_def .
qed

text \<open>
  C2. A call of \<open>fixImage\<close> that ends in the failure handling sets one retry timer when
  it is a first pass (\<open>isRetry\<close> false) and the last recorded error is a timeout, and
  marks the element \<open>retry\<close>; in every other case it sets none, and marks the element
  \<open>failed\<close>. The other ways a call can end set no timer either. A retry pass is a call
  with \<open>isRetry\<close> true, so the callback of the timer never sets a further timer: a
  first pass is followed by at most one retry. The last recorded error is the rejection
  of the last request of the pass, and there is none when the pass made no request.
\<close>

theorem retry_scheduled_at_most_once:
  assumes "fixImage net st i isRetry = (st', r)"
  shows "timers st' = timers st @
           (if \<not> isRetry \<and> r = GaveUp (Some Timeout) then [(RETRY_DELAY, i)] else []) \<and>
         (\<forall>e. r = GaveUp e \<longrightarrow> batoFixing (images st' i) =
            Some (if \<not> isRetry \<and> e = Some Timeout then ''retry'' else ''failed'')) \<and>
         (\<forall>net2 st2. timers (fst (retry_callback net2 st2 i)) = timers st2) \<and>
         (\<forall>e. r = GaveUp e \<longrightarrow>
            (e = None \<and> requests st' = requests st) \<or>
            (e \<noteq> None \<and> length (requests st) < length (requests st') \<and>
             e = rejection_of (net (last (requests st')))))"
proof (intro conjI)
  show "\<forall>e. r = GaveUp e \<longrightarrow>
            (e = None \<and> requests st' = requests st) \<or>
            (e \<noteq> None \<and> length (requests st) < length (requests st') \<and>
             e = rejection_of (net (last (requests st'))))"
  proof (intro allI impI)
    fix e assume "r = GaveUp e"
    then have "fixImage net st i isRetry = (st', GaveUp e)" using assms by simp
    from fixImage_last_error[OF this]
    show "(e = None \<and> requests st' = requests st) \<or>
            (e \<noteq> None \<and> length (requests st) < length (requests st') \<and>
             e = rejection_of (net (last (requests st'))))"
      by blast
  qed
  show "timers st' = timers st @
           (if \<not> isRetry \<and> r = GaveUp (Some Timeout) then [(RETRY_DELAY, i)] else [])"
    using assms by (rule fixImage_props(1))
  show "\<forall>e. r = GaveUp e \<longrightarrow> batoFixing (images st' i) =
            Some (if \<not> isRetry \<and> e = Some Timeout then ''retry'' else ''failed'')"
    using assms by (rule fixImage_props(2))
  show "\<forall>net2 st2. timers (fst (retry_callback net2 st2 i)) = timers st2"
  proof (intro allI)
    fix net2 st2
    show "timers (fst (retry_callback net2 st2 i)) = timers st2"
    proof (cases "complete (images st2 i) \<and> naturalWidth (images st2 i) = 0")
      case False
      then show ?thesis by (auto simp: retry_callback_def)
    next
      case True
      obtain st3 r3 where f: "fixImage net2 st2 i True = (st3, r3)"
        by (cases "fixImage net2 st2 i True")
      from fixImage_props(1)[OF f] show ?thesis using True f by (simp add: retry_callback_def)
    qed
  qed
qed

theorem retry_scheduled_at_most_once_witness:
  "timers (fst (fixImage (\<lambda>u. TimerFired)
      (w_state (initial (\<lambda>i. broken_img ''https://k03.mbdny.org/a/b/c/1.jpg''))) 0 False))
     = [(RETRY_DELAY, 0)] \<and>
   batoFixing (images (fst (fixImage (\<lambda>u. TimerFired)
      (w_state (initial (\<lambda>i. broken_img ''https://k03.mbdny.org/a/b/c/1.jpg''))) 0 False)) 0)
     = Some ''retry'' \<and>
   timers (fst (fixImage (\<lambda>u. OnError)
      (w_state (initial (\<lambda>i. broken_img ''https://k03.mbdny.org/a/b/c/1.jpg''))) 0 False))
     = [] \<and>
   batoFixing (images (fst (fixImage (\<lambda>u. OnError)
      (w_state (initial (\<lambda>i. broken_img ''https://k03.mbdny.org/a/b/c/1.jpg''))) 0 False)) 0)
     = Some ''failed'' \<and>
   timers (fst (fixImage (\<lambda>u. TimerFired)
      (w_state (initial (\<lambda>i. broken_img ''https://k03.mbdny.org/a/b/c/1.jpg''))) 0 True))
     = []"
proof -
  define st0 where "st0 = w_state (initial (\<lambda>i. broken_img ''https://k03.mbdny.org/a/b/c/1.jpg''))"
  define slow where "slow = (\<lambda>u::string. TimerFired)"
  define dead where "dead = (\<lambda>u::string. OnError)"
  have t0: "timers st0 = []" unfolding st0_def by (simp add: initial_def)
  have r1: "snd (fixImage slow st0 0 False) = GaveUp (Some Timeout)"
    unfolding slow_def st0_def by code_simp
  have r2: "snd (fixImage dead st0 0 False) = GaveUp (Some Error)"
    unfolding dead_def st0_def by code_simp
  have r3: "snd (fixImage slow st0 0 True) = GaveUp (Some Timeout)"
    unfolding slow_def st0_def by code_simp
  note a = retry_scheduled_at_most_once[OF prod.collapse[symmetric], of slow st0 0 False]
  note b = retry_scheduled_at_most_once[OF prod.collapse[symmetric], of dead st0 0 False]
  note c = retry_scheduled_at_most_once[OF prod.collapse[symmetric], of slow st0 0 True]
  have 1: "timers (fst (fixImage slow st0 0 False)) = [(RETRY_DELAY, 0)]"
    using a[THEN conjunct1] unfolding r1 t0 by simp
  have 2: "batoFixing (images (fst (fixImage slow st0 0 False)) 0) = Some ''retry''"
    using a[THEN conjunct2, THEN conjunct1] unfolding r1 by simp
  have 3: "timers (fst (fixImage dead st0 0 False)) = []"
    using b[THEN conjunct1] unfolding r2 t0 by simp
  have 4: "batoFixing (images (fst (fixImage dead st0 0 False)) 0) = Some ''failed''"
    using b[THEN conjunct2, THEN conjunct1] unfolding r2 by simp
  have 5: "timers (fst (fixImage slow st0 0 True)) = []"
    using c[THEN conjunct1] unfolding r3 t0 by simp
  show ?thesis
    using 1 2 3 4 5 unfolding st0_def slow_def dead_def by blast
qed

text \<open>
  C3. Whatever calls, settled probes, due timers and changes of the page have happened
  since the script started, no two tasks of \<open>fixImage\<close> work on the same element, and
  the elements in \<open>processingImages\<close> are exactly those with a task. A call of
  \<open>fixImage\<close> on an element that has a task, or that is marked \<open>done\<close>, returns at the
  guard: it starts no task and leaves the whole state as it was.
\<close>

theorem fixImage_one_in_flight:
  assumes "w = run_events (initial imgs) evs"
  shows "distinct (map t_img (w_tasks w)) \<and>
         set (map t_img (w_tasks w)) = processingImages (w_state w) \<and>
         (\<forall>t\<in>set (w_tasks w). \<forall>isRetry.
            fixImage_start (w_state w) (t_img t) isRetry = (w_state w, Ended Skipped) \<and>
            apply_event w (Call (t_img t) isRetry) = w) \<and>
         (\<forall>i isRetry. batoFixing (images (w_state w) i) = Some ''done'' \<longrightarrow>
            fixImage_start (w_state w) i isRetry = (w_state w, Ended Skipped) \<and>
            apply_event w (Call i isRetry) = w)"
proof -
  have s: "sane w" unfolding assms by (rule sane_run_events) (rule sane_initial)
  have skip: "apply_event w (Call i isRetry) = w"
    if "fixImage_start (w_state w) i isRetry = (w_state w, Ended Skipped)" for i isRetry
    using that by (simp add: apply_event_def enter_def)
  have 1: "distinct (map t_img (w_tasks w))"
    and 2: "set (map t_img (w_tasks w)) = processingImages (w_state w)"
    using s by (simp_all add: sane_def)
  have 3: "\<forall>t\<in>set (w_tasks w). \<forall>isRetry.
            fixImage_start (w_state w) (t_img t) isRetry = (w_state w, Ended Skipped) \<and>
            apply_event w (Call (t_img t) isRetry) = w"
  proof (intro ballI allI)
    fix t isRetry assume "t \<in> set (w_tasks w)"
    then have "t_img t \<in> processingImages (w_state w)" using 2 by auto
    then have "fixImage_start (w_state w) (t_img t) isRetry = (w_state w, Ended Skipped)"
      by (simp add: fixImage_start_guard)
    then show "fixImage_start (w_state w) (t_img t) isRetry = (w_state w, Ended Skipped) \<and>
            apply_event w (Call (t_img t) isRetry) = w"
      using skip by simp
  qed
  have 4: "\<forall>i isRetry. batoFixing (images (w_state w) i) = Some ''done'' \<longrightarrow>
            fixImage_start (w_state w) i isRetry = (w_state w, Ended Skipped) \<and>
            apply_event w (Call i isRetry) = w"
  proof (intro allI impI)
    fix i isRetry assume "batoFixing (images (w_state w) i) = Some ''done''"
    then have "fixImage_start (w_state w) i isRetry = (w_state w, Ended Skipped)"
      by (simp add: fixImage_start_guard)
    then show "fixImage_start (w_state w) i isRetry = (w_state w, Ended Skipped) \<and>
            apply_event w (Call i isRetry) = w"
      using skip by simp
  qed
  show ?thesis using 1 2 3 4 by blast
qed

theorem fixImage_one_in_flight_witness:
  "map t_img (w_tasks (run_events (initial (\<lambda>i. broken_img ''https://k03.mbdny.org/a/b/c/1.jpg''))
      [Call 0 False])) = [0] \<and>
   apply_event (run_events (initial (\<lambda>i. broken_img ''https://k03.mbdny.org/a/b/c/1.jpg''))
      [Call 0 False]) (Call 0 True)
     = run_events (initial (\<lambda>i. broken_img ''https://k03.mbdny.org/a/b/c/1.jpg'')) [Call 0 False] \<and>
   batoFixing (images (w_state (run_events (initial (\<lambda>i. broken_img ''https://k03.mbdny.org/a/b/c/1.jpg''))
      [Call 0 False, Settled 0 (OnLoad 300 400)])) 0) = Some ''done'' \<and>
   apply_event (run_events (initial (\<lambda>i. broken_img ''https://k03.mbdny.org/a/b/c/1.jpg''))
      [Call 0 False, Settled 0 (OnLoad 300 400)]) (Call 0 False)
     = run_events (initial (\<lambda>i. broken_img ''https://k03.mbdny.org/a/b/c/1.jpg''))
      [Call 0 False, Settled 0 (OnLoad 300 400)]"
proof -
  define imgs where "imgs = (\<lambda>i::nat. broken_img ''https://k03.mbdny.org/a/b/c/1.jpg'')"
  define w1 where "w1 = run_events (initial imgs) [Call 0 False]"
  define w2 where "w2 = run_events (initial imgs) [Call 0 False, Settled 0 (OnLoad 300 400)]"
  have a: "map t_img (w_tasks w1) = [0]" unfolding w1_def imgs_def by code_simp
  have b: "batoFixing (images (w_state w2) 0) = Some ''done''"
    unfolding w2_def imgs_def by code_simp
  from a obtain t where t: "t \<in> set (w_tasks w1)" "t_img t = 0" by (cases "w_tasks w1") auto
  from fixImage_one_in_flight[OF w1_def] t have 1: "apply_event w1 (Call 0 True) = w1"
    by metis
  from fixImage_one_in_flight[OF w2_def] b have 2: "apply_event w2 (Call 0 False) = w2"
    by blast
  show ?thesis
    using a 1 b 2 unfolding w1_def w2_def imgs_def by blast
qed

text \<open>
  What the loop does when a probe fails. A timeout at an index above 6 (the eighth
  candidate of the list, or a later one) ends the pass, whatever the earlier probes
  ended with. And a pass that gives up while some candidate has a host that is still
  not in the failure cache has ended so: its last request timed out at an index above
  6. Errors and empty images never end the pass, but they, like the candidates passed
  over, move the index on. The test reads the index only: nothing counts the timeouts.
\<close>

lemma break_is_timeout_above_index_6:
  "(6 < t_i t \<longrightarrow>
      snd (settle st t TimerFired) = Ended (GaveUp (Some Timeout)) \<and>
      requests (fst (settle st t TimerFired)) = requests st) \<and>
   (fixImage net st i isRetry = (st', GaveUp e) \<and>
    parseSubdomain (src (images st i)) = Some p \<and>
    (\<exists>j<length (generateCandidates (serverCache st) p).
        slice3 (generateCandidates (serverCache st) p ! j) \<notin> failedCache st') \<longrightarrow>
      e = Some Timeout \<and>
      (\<exists>k. 6 < k \<and> k < length (generateCandidates (serverCache st) p) \<and> requests st' \<noteq> [] \<and>
           last (requests st') = generateCandidates (serverCache st) p ! k \<and>
           net (generateCandidates (serverCache st) p ! k) = TimerFired))"
proof (intro conjI impI)
  assume a: "6 < t_i t"
  note q = settle_timeout_past_6[OF a prod.collapse[symmetric], of st]
  show "snd (settle st t TimerFired) = Ended (GaveUp (Some Timeout))" by (rule q(1))
  show "requests (fst (settle st t TimerFired)) = requests st" by (rule q(2))
next
  assume a: "fixImage net st i isRetry = (st', GaveUp e) \<and>
    parseSubdomain (src (images st i)) = Some p \<and>
    (\<exists>j<length (generateCandidates (serverCache st) p).
        slice3 (generateCandidates (serverCache st) p ! j) \<notin> failedCache st')"
  note r = fixImage_abandon[OF a[THEN conjunct1] a[THEN conjunct2, THEN conjunct1]
      a[THEN conjunct2, THEN conjunct2]]
  show "e = Some Timeout" using r by (rule conjunct1)
  show "\<exists>k. 6 < k \<and> k < length (generateCandidates (serverCache st) p) \<and> requests st' \<noteq> [] \<and>
           last (requests st') = generateCandidates (serverCache st) p ! k \<and>
           net (generateCandidates (serverCache st) p ! k) = TimerFired"
    using r by (rule conjunct2)
qed

lemma break_is_timeout_above_index_6_example:
  "snd (fixImage (\<lambda>u. TimerFired)
      (w_state (initial (\<lambda>i. broken_img ''https://k03.mbdny.org/a/b/c/1.jpg''))) 0 False)
     = GaveUp (Some Timeout) \<and>
   slice3 ''https://n14.mbdny.org/a/b/c/1.jpg'' \<notin>
     failedCache (fst (fixImage (\<lambda>u. TimerFired)
      (w_state (initial (\<lambda>i. broken_img ''https://k03.mbdny.org/a/b/c/1.jpg''))) 0 False)) \<and>
   (\<exists>k. 6 < k \<and>
      last (requests (fst (fixImage (\<lambda>u. TimerFired)
        (w_state (initial (\<lambda>i. broken_img ''https://k03.mbdny.org/a/b/c/1.jpg''))) 0 False)))
      = generateCandidates Map.empty
          \<lparr>prefix = ''k'', number = 3, root = ''mbdny'', tld = ''org'', path = ''/a/b/c/1.jpg''\<rparr> ! k)"
proof -
  define st0 where "st0 = w_state (initial (\<lambda>i. broken_img ''https://k03.mbdny.org/a/b/c/1.jpg''))"
  define slow where "slow = (\<lambda>u::string. TimerFired)"
  define p where "p = \<lparr>prefix = ''k'', number = 3, root = ''mbdny'', tld = ''org'', path = ''/a/b/c/1.jpg''\<rparr>"
  define st' where "st' = fst (fixImage slow st0 0 False)"
  define cs where "cs = generateCandidates (serverCache st0) p"
  have sc: "serverCache st0 = Map.empty" unfolding st0_def by (simp add: initial_def)
  have r: "snd (fixImage slow st0 0 False) = GaveUp (Some Timeout)"
    unfolding slow_def st0_def by code_simp
  have f: "fixImage slow st0 0 False = (st', GaveUp (Some Timeout))"
    unfolding st'_def r[symmetric] by simp
  have pp: "parseSubdomain (src (images st0 0)) = Some p"
    unfolding st0_def p_def by code_simp
  have l: "14 < length cs" unfolding cs_def st0_def p_def by code_simp
  have c14: "cs ! 14 = ''https://n14.mbdny.org/a/b/c/1.jpg''"
    unfolding cs_def st0_def p_def by code_simp
  have n: "slice3 ''https://n14.mbdny.org/a/b/c/1.jpg'' \<notin> failedCache st'"
    unfolding st'_def slow_def st0_def by code_simp
  have ex: "\<exists>j<length cs. slice3 (cs ! j) \<notin> failedCache st'"
    using l n c14 by (intro exI[of _ 14]) simp
  from break_is_timeout_above_index_6[where net = slow and st = st0 and i = 0
      and isRetry = False and st' = st' and e = "Some Timeout" and p = p]
    f pp ex
  have "\<exists>k. 6 < k \<and> last (requests st') = cs ! k" unfolding cs_def by blast
  then have "\<exists>k. 6 < k \<and> last (requests st') = generateCandidates Map.empty p ! k"
    unfolding cs_def sc .
  with r n have "snd (fixImage slow st0 0 False) = GaveUp (Some Timeout) \<and>
      slice3 ''https://n14.mbdny.org/a/b/c/1.jpg'' \<notin> failedCache st' \<and>
      (\<exists>k. 6 < k \<and> last (requests st') = generateCandidates Map.empty p ! k)"
    by (intro conjI)
  then show ?thesis
    unfolding st'_def st0_def slow_def p_def .
qed

text \<open>
  C8. The comment of lines 196-197 says that the pass stops early when the first few
  servers fail with a timeout. The code does not keep to it: here seven candidates fail
  with an error, the eighth times out, and the pass gives up after that single timeout.
  It has made eight requests, one of them timed out, and the seven candidates that are
  left, none of a host in the failure cache, are never tried. With an error in place of
  that timeout all fifteen candidates are tried.
\<close>

theorem early_abort_after_one_timeout:
  "snd (fixImage (\<lambda>u. if u = ''https://n07.mbdny.org/a/b/c/1.jpg'' then TimerFired else OnError)
      (w_state (initial (\<lambda>i. broken_img ''https://k03.mbdny.org/a/b/c/1.jpg''))) 0 False)
     = GaveUp (Some Timeout) \<and>
   map (\<lambda>u. if u = ''https://n07.mbdny.org/a/b/c/1.jpg'' then TimerFired else OnError)
     (requests (fst (fixImage
        (\<lambda>u. if u = ''https://n07.mbdny.org/a/b/c/1.jpg'' then TimerFired else OnError)
        (w_state (initial (\<lambda>i. broken_img ''https://k03.mbdny.org/a/b/c/1.jpg''))) 0 False)))
     = [OnError, OnError, OnError, OnError, OnError, OnError, OnError, TimerFired] \<and>
   length (generateCandidates Map.empty
      \<lparr>prefix = ''k'', number = 3, root = ''mbdny'', tld = ''org'', path = ''/a/b/c/1.jpg''\<rparr>) = 15 \<and>
   filter (\<lambda>c. slice3 c \<notin> failedCache (fst (fixImage
        (\<lambda>u. if u = ''https://n07.mbdny.org/a/b/c/1.jpg'' then TimerFired else OnError)
        (w_state (initial (\<lambda>i. broken_img ''https://k03.mbdny.org/a/b/c/1.jpg''))) 0 False)))
     (generateCandidates Map.empty
        \<lparr>prefix = ''k'', number = 3, root = ''mbdny'', tld = ''org'', path = ''/a/b/c/1.jpg''\<rparr>)
     = [''https://n08.mbdny.org/a/b/c/1.jpg'', ''https://n09.mbdny.org/a/b/c/1.jpg'',
        ''https://n10.mbdny.org/a/b/c/1.jpg'', ''https://n11.mbdny.org/a/b/c/1.jpg'',
        ''https://n12.mbdny.org/a/b/c/1.jpg'', ''https://n13.mbdny.org/a/b/c/1.jpg'',
        ''https://n14.mbdny.org/a/b/c/1.jpg''] \<and>
   length (requests (fst (fixImage (\<lambda>u. OnError)
      (w_state (initial (\<lambda>i. broken_img ''https://k03.mbdny.org/a/b/c/1.jpg''))) 0 False))) = 15"
  by code_simp

text \<open>
  C9. An element whose address does not parse: the call leaves the address alone and
  takes the element out of \<open>processingImages\<close>, but it leaves \<open>batoFixing\<close> at \<open>true\<close>,
  and with that mark every later first-pass call on the element returns at the guard,
  also after the page has given the element an address that parses.
\<close>

theorem fixImage_parse_failure_blocks_later_calls:
  "snd (fixImage (\<lambda>u. OnLoad 300 400)
      (w_state (initial (\<lambda>i. broken_img ''https://example.com/a.png''))) 0 False) = NoParse \<and>
   src (images (fst (fixImage (\<lambda>u. OnLoad 300 400)
      (w_state (initial (\<lambda>i. broken_img ''https://example.com/a.png''))) 0 False)) 0)
     = ''https://example.com/a.png'' \<and>
   0 \<notin> processingImages (fst (fixImage (\<lambda>u. OnLoad 300 400)
      (w_state (initial (\<lambda>i. broken_img ''https://example.com/a.png''))) 0 False)) \<and>
   batoFixing (images (fst (fixImage (\<lambda>u. OnLoad 300 400)
      (w_state (initial (\<lambda>i. broken_img ''https://example.com/a.png''))) 0 False)) 0)
     = Some ''true'' \<and>
   snd (fixImage (\<lambda>u. OnLoad 300 400)
      (fst (fixImage (\<lambda>u. OnLoad 300 400)
         (w_state (initial (\<lambda>i. broken_img ''https://example.com/a.png''))) 0 False)) 0 False)
     = Skipped \<and>
   snd (fixImage (\<lambda>u. OnLoad 300 400)
      (w_state (apply_event
         \<lparr>w_state = fst (fixImage (\<lambda>u. OnLoad 300 400)
            (w_state (initial (\<lambda>i. broken_img ''https://example.com/a.png''))) 0 False),
          w_tasks = []\<rparr>
         (Page 0 ((images (fst (fixImage (\<lambda>u. OnLoad 300 400)
            (w_state (initial (\<lambda>i. broken_img ''https://example.com/a.png''))) 0 False)) 0)
               \<lparr>src := ''https://k03.mbdny.org/a/b/c/1.jpg''\<rparr>)))) 0 False)
     = Skipped \<and>
   snd (fixImage (\<lambda>u. OnLoad 300 400)
      (w_state (initial (\<lambda>i. broken_img ''https://k03.mbdny.org/a/b/c/1.jpg''))) 0 False)
     = Fixed ''https://n03.mbdny.org/a/b/c/1.jpg''"
  by code_simp


end
